theory Spec2Isabelle
  imports Complex_Main "HOL-Library.Word" "HOL-Library.Log_Nat"
begin

section \<open>Conventions\<close>

text \<open>
  Both programs are Python 2 scripts. Python integers are unbounded and are modelled as
  \<open>int\<close>; byte strings are lists of 8-bit words. An exception is a value: every function
  that can raise returns \<open>error + 'a\<close>, with \<open>Inl\<close> carrying the exception.
\<close>

datatype error =
    ValueError            \<comment> \<open>\<open>np.max\<close> of an empty array, \<open>islice\<close> with a negative count\<close>
  | IndexError            \<comment> \<open>array index out of bounds\<close>
  | StructError           \<comment> \<open>\<open>struct.error\<close>\<close>
  | ZeroDivisionError     \<comment> \<open>integer division or modulo by zero\<close>
  | FloatDivideByZero     \<comment> \<open>float division by \<open>0.0\<close>: numpy answers \<open>inf\<close> with a warning\<close>

type_synonym byte = "8 word"

text \<open>
  A finite float64 value is the real number it denotes. Comparison, absolute value,
  maximum, negation and truncation to an integer are exact on floats and are the
  operations of \<open>real\<close>. A float multiplication or division rounds its exact result to
  a representable value; that rounding is the parameter \<open>rnd\<close> of every function that
  multiplies or divides floats. \<open>round_b64\<close> below is the rounding of binary64 (to
  nearest, ties to even); the identity is exact arithmetic. Infinities and NaN are no
  reals: the one place where the programs produce them, a division by \<open>0.0\<close>, is the
  error value \<open>FloatDivideByZero\<close>.
\<close>

type_synonym rounding = "real \<Rightarrow> real"

definition fdiv :: "rounding \<Rightarrow> real \<Rightarrow> real \<Rightarrow> error + real" where
  "fdiv rnd x y = (if y = 0 then Inl FloatDivideByZero else Inr (rnd (x / y)))"

definition fmul :: "rounding \<Rightarrow> real \<Rightarrow> real \<Rightarrow> real" where
  "fmul rnd x y = rnd (x * y)"

subsection \<open>Rounding to binary64\<close>

text \<open>
  \<open>expo x\<close> is the exponent \<open>e\<close> with \<open>2^e \<le> |x| < 2^(e+1)\<close>, computed from the bit
  length of the integer part of \<open>|x|\<close> or of \<open>1 / |x|\<close>. A binary64 number has a
  53-bit significand, so the neighbours of \<open>x\<close> are the multiples of \<open>2^(e-52)\<close>, and
  the result is the nearest one, the one with the even significand on a tie. The
  exponent range is not bounded: overflow to infinity and gradual underflow are not
  modelled.
\<close>

definition pow2 :: "int \<Rightarrow> real" where
  "pow2 e = (if 0 \<le> e then 2 ^ nat e else 1 / 2 ^ nat (- e))"

definition round_half_even :: "real \<Rightarrow> int" where
  "round_half_even x =
     (let f = \<lfloor>x\<rfloor>; d = x - of_int f
      in if d < 1 / 2 then f else if 1 / 2 < d then f + 1 else if even f then f else f + 1)"

definition expo :: "real \<Rightarrow> int" where
  "expo x = (if 1 \<le> \<bar>x\<bar> then bitlen \<lfloor>\<bar>x\<bar>\<rfloor> - 1 else - bitlen (\<lceil>1 / \<bar>x\<bar>\<rceil> - 1))"

definition round_b64 :: rounding where
  "round_b64 x =
     (if x = 0 then 0
      else let e = expo x - 52 in of_int (round_half_even (x * pow2 (- e))) * pow2 e)"

section \<open>Impulse-response derivation (sr-to-ir.py)\<close>

subsection \<open>derive\<close>

text \<open>
  \<^verbatim>\<open>
  def derive(ir):
      der = []
      n = len(ir)
      der.append(0.0)
      for i in range(1, n - 1):
          der.append(ir[i + 1] - ir[i - 1])
      der.append(0.0)
      return np.array(der)
  \<close>
  The samples are kept polymorphic: the function only needs a zero and a subtraction, so
  what is proved holds for whatever subtraction the sample type has. The loop index runs
  over \<open>range(1, n - 1)\<close>, which is empty for \<open>n \<le> 2\<close>; on \<open>nat\<close> the bound \<open>n - 1\<close>
  is \<open>0\<close> for \<open>n = 0\<close>, where Python has \<open>-1\<close>, and both ranges are empty. Inside the
  loop \<open>1 \<le> i\<close> and \<open>i + 1 \<le> n - 1\<close>, so both reads are in range and no index is negative.
\<close>

definition derive_step :: "'a::{zero,minus} list \<Rightarrow> 'a list \<Rightarrow> nat \<Rightarrow> 'a list" where
  "derive_step ir der i = der @ [ir ! (i + 1) - ir ! (i - 1)]"

definition derive :: "'a::{zero,minus} list \<Rightarrow> 'a list" where
  "derive ir =
     (let der = [];
          n = length ir;
          der = der @ [0];
          der = foldl (derive_step ir) der [1 ..< n - 1];
          der = der @ [0]
      in der)"

subsection \<open>Band-limiting loop of the post-processing step\<close>

text \<open>
  \<^verbatim>\<open>
  for i in range(0, len(freqs)):
      freq = np.absolute(freqs[i])
      if (freq < 20.0) | (freq > 20000.0):
          ndata_fft[i] = 0.0
  \<close>
  \<open>freqs\<close> is what \<open>np.fft.fftfreq\<close> returned and \<open>ndata_fft\<close> what \<open>np.fft.fft\<close>
  returned; both come from numpy and are the inputs of the loop here. The read
  \<open>freqs[i]\<close> is in range by the loop bound. The write \<open>ndata_fft[i] = 0.0\<close> raises
  IndexError in numpy when \<open>i\<close> is out of range, where a HOL list update would do nothing.
\<close>

fun band_limit_loop :: "real list \<Rightarrow> nat list \<Rightarrow> complex list \<Rightarrow> error + complex list" where
  "band_limit_loop freqs [] ndata_fft = Inr ndata_fft"
| "band_limit_loop freqs (i # is) ndata_fft =
     (let freq = \<bar>freqs ! i\<bar>
      in if freq < 20 \<or> freq > 20000
         then (if i < length ndata_fft
               then band_limit_loop freqs is (ndata_fft[i := 0])
               else Inl IndexError)
         else band_limit_loop freqs is ndata_fft)"

definition band_limit :: "real list \<Rightarrow> complex list \<Rightarrow> error + complex list" where
  "band_limit freqs ndata_fft = band_limit_loop freqs [0 ..< length freqs] ndata_fft"

subsection \<open>Peak rescale\<close>

text \<open>
  \<^verbatim>\<open>
  ndata_abs = np.absolute(ndata)
  peak = np.max(ndata_abs)
  scale = 1.0 / peak
  ndata *= scale
  \<close>
  \<open>np.max\<close> raises ValueError on an empty array. There is no test of \<open>peak\<close> before
  the division.
\<close>

definition np_max :: "real list \<Rightarrow> error + real" where
  "np_max xs = (if xs = [] then Inl ValueError else Inr (Max (set xs)))"

definition rescale :: "rounding \<Rightarrow> real list \<Rightarrow> error + real list" where
  "rescale rnd ndata =
     (let ndata_abs = map abs ndata
      in case np_max ndata_abs of
           Inl e \<Rightarrow> Inl e
         | Inr peak \<Rightarrow>
             (case fdiv rnd 1 peak of
                Inl e \<Rightarrow> Inl e
              | Inr scale \<Rightarrow> Inr (map (\<lambda>x. fmul rnd x scale) ndata)))"

section \<open>Sample codec (class Audio, the same in both programs)\<close>

subsection \<open>The struct module\<close>

text \<open>
  The programs use \<open>struct.pack\<close> and \<open>struct.unpack\<close> with the formats \<open>"<h"\<close>,
  \<open>">i"\<close> and their repetitions: a byte order mark followed by field codes, \<open>h\<close> a
  signed 16-bit and \<open>i\<close> a signed 32-bit integer in two's complement, without padding.
  \<open>pack\<close> raises \<open>struct.error\<close> for a value outside the range of its field and for
  a wrong number of values; \<open>unpack\<close> raises it unless the string has exactly the size
  of the format.
\<close>

datatype endian = LittleEndian | BigEndian

datatype fmt_code = Fmt_h | Fmt_i

type_synonym struct_fmt = "endian \<times> fmt_code list"

fun field_size :: "fmt_code \<Rightarrow> nat" where
  "field_size Fmt_h = 2"
| "field_size Fmt_i = 4"

definition calcsize :: "struct_fmt \<Rightarrow> nat" where
  "calcsize fmt = sum_list (map field_size (snd fmt))"

fun bytes_le :: "nat \<Rightarrow> int \<Rightarrow> byte list" where
  "bytes_le 0 v = []"
| "bytes_le (Suc k) v = word_of_int v # bytes_le k (v div 256)"

fun uint_le :: "byte list \<Rightarrow> int" where
  "uint_le [] = 0"
| "uint_le (b # bs) = uint b + 256 * uint_le bs"

definition pack_field :: "endian \<Rightarrow> fmt_code \<Rightarrow> int \<Rightarrow> error + byte list" where
  "pack_field en c v =
     (let k = field_size c
      in if - (2 ^ (8 * k - 1)) \<le> v \<and> v < 2 ^ (8 * k - 1)
         then Inr (case en of LittleEndian \<Rightarrow> bytes_le k v | BigEndian \<Rightarrow> rev (bytes_le k v))
         else Inl StructError)"

definition unpack_field :: "endian \<Rightarrow> byte list \<Rightarrow> int" where
  "unpack_field en bs =
     (let u = uint_le (case en of LittleEndian \<Rightarrow> bs | BigEndian \<Rightarrow> rev bs)
      in if 2 ^ (8 * length bs - 1) \<le> u then u - 2 ^ (8 * length bs) else u)"

fun pack_fields :: "endian \<Rightarrow> fmt_code list \<Rightarrow> int list \<Rightarrow> error + byte list" where
  "pack_fields en [] [] = Inr []"
| "pack_fields en (c # cs) (v # vs) =
     (case pack_field en c v of
        Inl e \<Rightarrow> Inl e
      | Inr b \<Rightarrow> (case pack_fields en cs vs of Inl e \<Rightarrow> Inl e | Inr bs \<Rightarrow> Inr (b @ bs)))"
| "pack_fields en cs vs = Inl StructError"

definition struct_pack :: "struct_fmt \<Rightarrow> int list \<Rightarrow> error + byte list" where
  "struct_pack fmt vs = pack_fields (fst fmt) (snd fmt) vs"

fun unpack_fields :: "endian \<Rightarrow> fmt_code list \<Rightarrow> byte list \<Rightarrow> int list" where
  "unpack_fields en [] s = []"
| "unpack_fields en (c # cs) s =
     unpack_field en (take (field_size c) s) # unpack_fields en cs (drop (field_size c) s)"

definition struct_unpack :: "struct_fmt \<Rightarrow> byte list \<Rightarrow> error + int list" where
  "struct_unpack fmt s =
     (if length s \<noteq> calcsize fmt then Inl StructError
      else Inr (unpack_fields (fst fmt) (snd fmt) s))"

subsection \<open>Audio\<close>

text \<open>
  \<^verbatim>\<open>
  def __init__(self, low_res = False):
      self.__stride = 4
      self.__low_res = low_res
      self.__pre_post = 0
  \<close>
\<close>

record audio =
  stride :: nat
  low_res :: bool
  pre_post :: int

definition Audio :: "bool \<Rightarrow> audio" where
  "Audio lr = \<lparr>stride = 4, low_res = lr, pre_post = 0\<rparr>"

text \<open>
  \<^verbatim>\<open>
  def serialize(self, a):
      s = ""
      fmt = "<h" if self.__low_res else ">i"
      for elem in a:
          s += struct.pack(fmt, elem)
      return s
  \<close>
\<close>

fun serialize_loop :: "struct_fmt \<Rightarrow> byte list \<Rightarrow> int list \<Rightarrow> error + byte list" where
  "serialize_loop fmt s [] = Inr s"
| "serialize_loop fmt s (elem # a) =
     (case struct_pack fmt [elem] of
        Inl e \<Rightarrow> Inl e
      | Inr b \<Rightarrow> serialize_loop fmt (s @ b) a)"

definition serialize :: "audio \<Rightarrow> int list \<Rightarrow> error + byte list" where
  "serialize self a =
     (let s = [];
          fmt = (if low_res self then (LittleEndian, [Fmt_h]) else (BigEndian, [Fmt_i]))
      in serialize_loop fmt s a)"

text \<open>
  \<^verbatim>\<open>
  def deserialize(self, s):
      endianness, fmt, the_stride = ("<", "h", self.__stride // 2) if self.__low_res
                                    else (">", "i", self.__stride)
      return struct.unpack(endianness + (fmt * (len(s) // the_stride)), s)
  \<close>
  The result is a tuple in Python; tuples and lists of integers are both \<open>int list\<close> here.
\<close>

definition deserialize :: "audio \<Rightarrow> byte list \<Rightarrow> error + int list" where
  "deserialize self s =
     (let (endianness, fmt, the_stride) =
            (if low_res self then (LittleEndian, Fmt_h, stride self div 2)
             else (BigEndian, Fmt_i, stride self))
      in if the_stride = 0 then Inl ZeroDivisionError
         else struct_unpack (endianness, replicate (length s div the_stride) fmt) s)"

text \<open>
  \<^verbatim>\<open>
  def denormalize(self, data, max_val):
      fac = 1.0 * max_val
      data = np.array(data)
      data = np.clip(data, -1.0, 1.0)
      data = (fac * data).astype(np.int64)
      return data
  \<close>
  \<open>1.0 * max_val\<close> converts the integer to a float, which rounds it, and multiplies by
  one. \<open>astype(np.int64)\<close> drops the fraction of a float; the values here are bounded
  by \<open>fac\<close>, far inside the 64-bit range for the full scales in use.
\<close>

definition np_clip :: "real \<Rightarrow> real \<Rightarrow> real \<Rightarrow> real" where
  "np_clip x lo hi = min (max x lo) hi"

definition astype_int64 :: "real \<Rightarrow> int" where
  "astype_int64 x = (if 0 \<le> x then \<lfloor>x\<rfloor> else \<lceil>x\<rceil>)"

definition denormalize :: "rounding \<Rightarrow> real list \<Rightarrow> int \<Rightarrow> int list" where
  "denormalize rnd data max_val =
     (let fac = fmul rnd 1 (rnd (of_int max_val));
          data = map (\<lambda>x. np_clip x (- 1) 1) data;
          data = map (\<lambda>x. astype_int64 (fmul rnd fac x)) data
      in data)"






section \<open>Test-signal generator (signal-gen.py)\<close>

subsection \<open>LCG\<close>

text \<open>
  \<^verbatim>\<open>
  def __init__(self, seed):
      scale = 64979
      offset = 83
      self.__a = 7 ** 5
      self.__b = 0
      self.__c = (2 ** 31) - 1
      self.__state = (int(scale * seed) + offset) % self.__c
  \<close>
  The seed is an integer (the program passes \<open>1337\<close>), on which \<open>int\<close> is the identity.
  Python's \<open>%\<close> takes the sign of the divisor, as \<open>mod\<close> on \<open>int\<close> does.
\<close>

record lcg =
  lcg_a :: int
  lcg_b :: int
  lcg_c :: int
  lcg_state :: int

definition LCG :: "int \<Rightarrow> lcg" where
  "LCG seed =
     (let scale = 64979;
          offset = 83;
          a = 7 ^ 5;
          b = 0;
          c = 2 ^ 31 - 1
      in \<lparr>lcg_a = a, lcg_b = b, lcg_c = c, lcg_state = (scale * seed + offset) mod c\<rparr>)"

text \<open>
  \<^verbatim>\<open>
  def next(self):
      self.__state = ((self.__a * self.__state) + self.__b) % self.__c
      return self.__state
  \<close>
\<close>

definition lcg_next :: "lcg \<Rightarrow> error + (int \<times> lcg)" where
  "lcg_next self =
     (if lcg_c self = 0 then Inl ZeroDivisionError
      else let st = ((lcg_a self * lcg_state self) + lcg_b self) mod lcg_c self
           in Inr (st, self\<lparr>lcg_state := st\<rparr>))"

definition get_c :: "lcg \<Rightarrow> int" where
  "get_c self = lcg_c self"

text \<open>
  \<^verbatim>\<open>
  def draw_uniform(self, n = 1):
      return np.array(list(itertools.islice(self, int(n)))) / self.__c
  \<close>
  \<open>islice(self, k)\<close> calls \<open>next\<close> \<open>k\<close> times and raises ValueError for a negative
  \<open>k\<close>. With \<open>from __future__ import division\<close> the quotient is the float division of
  each state by \<open>c\<close>. When \<open>c\<close> is zero, \<open>next\<close> has raised before any quotient
  is formed, or there is no element to divide.
\<close>

fun islice :: "lcg \<Rightarrow> nat \<Rightarrow> error + (int list \<times> lcg)" where
  "islice self 0 = Inr ([], self)"
| "islice self (Suc k) =
     (case lcg_next self of
        Inl e \<Rightarrow> Inl e
      | Inr (x, self') \<Rightarrow>
          (case islice self' k of
             Inl e \<Rightarrow> Inl e
           | Inr (xs, self'') \<Rightarrow> Inr (x # xs, self'')))"

definition draw_uniform :: "rounding \<Rightarrow> lcg \<Rightarrow> int \<Rightarrow> error + (real list \<times> lcg)" where
  "draw_uniform rnd self n =
     (if n < 0 then Inl ValueError
      else case islice self (nat n) of
             Inl e \<Rightarrow> Inl e
           | Inr (xs, self') \<Rightarrow>
               Inr (map (\<lambda>x. rnd (of_int x / of_int (lcg_c self))) xs, self'))"

text \<open>
  The sequence of states in the words of the specification: \<open>state\<^sub>0\<close> is
  \<open>(64979 * seed + 83) mod c\<close> and \<open>state\<^sub>i\<close> is \<open>(7^5 * state\<^sub>i\<^sub>-\<^sub>1 + 0) mod c\<close>, with
  \<open>c = 2^31 - 1\<close>.
\<close>

fun spec_state :: "int \<Rightarrow> nat \<Rightarrow> int" where
  "spec_state seed 0 = (64979 * seed + 83) mod (2 ^ 31 - 1)"
| "spec_state seed (Suc i) = (7 ^ 5 * spec_state seed i + 0) mod (2 ^ 31 - 1)"

subsection \<open>Waveform assembly and replay\<close>

text \<open>
  \<^verbatim>\<open>
  audio = Audio()
  rate = 96000
  num = rate // 50
  lcg = LCG(1337)
  silence = np.zeros(rate)
  plusone = np.ones(rate)
  minusone = -np.ones(rate)
  noise = lcg.draw_uniform(n = rate)
  ndata = np.concatenate((silence, noise, silence, plusone, silence, minusone,
                          silence, plusone, minusone, silence))
  \<close>
\<close>

definition rate :: nat where
  "rate = 96000"

definition num :: nat where
  "num = rate div 50"

definition build_ndata :: "rounding \<Rightarrow> error + real list" where
  "build_ndata rnd =
     (let lcg = LCG 1337;
          silence = replicate rate 0;
          plusone = replicate rate 1;
          minusone = map uminus (replicate rate 1)
      in case draw_uniform rnd lcg (int rate) of
           Inl e \<Rightarrow> Inl e
         | Inr (noise, lcg') \<Rightarrow>
             Inr (concat [silence, noise, silence, plusone, silence, minusone,
                          silence, plusone, minusone, silence]))"

text \<open>
  \<^verbatim>\<open>
  while True:
      rdata = np.copy(ndata)
      while len(rdata) > 0:
          ldata, rdata = rdata[0 : num], rdata[num : ]
          pdata = audio.denormalize(ldata, 0x7fffffff)
          data = audio.serialize(pdata)
          outp.write(data)
  \<close>
  The playback device is the list of the blocks written to it so far. The inner loop
  ends because \<open>num\<close> is positive. The outer loop never ends; \<open>play\<close> runs its first
  \<open>k\<close> rounds.
\<close>

function write_chunks :: "rounding \<Rightarrow> audio \<Rightarrow> real list \<Rightarrow> byte list list \<Rightarrow> error + byte list list" where
  "write_chunks rnd au rdata outp =
     (if length rdata > 0
      then (case serialize au (denormalize rnd (take num rdata) 0x7fffffff) of
              Inl e \<Rightarrow> Inl e
            | Inr data \<Rightarrow> write_chunks rnd au (drop num rdata) (outp @ [data]))
      else Inr outp)"
  by pat_completeness auto
termination
  by (relation "measure (\<lambda>(rnd, au, rdata, outp). length rdata)") (auto simp: num_def rate_def)

declare write_chunks.simps [simp del]

fun play :: "rounding \<Rightarrow> audio \<Rightarrow> real list \<Rightarrow> nat \<Rightarrow> byte list list \<Rightarrow> error + byte list list" where
  "play rnd au ndata 0 outp = Inr outp"
| "play rnd au ndata (Suc k) outp =
     (let rdata = ndata
      in case write_chunks rnd au rdata outp of
           Inl e \<Rightarrow> Inl e
         | Inr outp' \<Rightarrow> play rnd au ndata k outp')"

definition signal_gen :: "rounding \<Rightarrow> nat \<Rightarrow> error + byte list list" where
  "signal_gen rnd k =
     (let au = Audio False
      in case build_ndata rnd of
           Inl e \<Rightarrow> Inl e
         | Inr ndata \<Rightarrow> play rnd au ndata k [])"

section \<open>Properties\<close>

subsection \<open>Facts about derive\<close>

lemma derive_loop: "foldl (derive_step ir) der is = der @ map (\<lambda>i. ir ! (i + 1) - ir ! (i - 1)) is"
  by (induction "is" arbitrary: der) (simp_all add: derive_step_def)

lemma derive_eq: "derive ir = 0 # map (\<lambda>i. ir ! (i + 1) - ir ! (i - 1)) [1 ..< length ir - 1] @ [0]"
  by (simp add: derive_def derive_loop)

lemma length_derive: "length (derive ir) = max 2 (length ir)"
  by (simp add: derive_eq)

lemma derive_not_Nil: "derive ir \<noteq> []"
  by (simp add: derive_eq)

lemma derive_first: "derive ir ! 0 = 0"
  by (simp add: derive_eq)

lemma derive_last: "derive ir ! (length (derive ir) - 1) = 0"
proof -
  have "derive ir ! (length (derive ir) - 1) = last (derive ir)"
    using derive_not_Nil [of ir] by (simp add: last_conv_nth)
  also have "\<dots> = 0"
    by (simp add: derive_eq)
  finally show ?thesis .
qed

lemma derive_inner:
  assumes "1 \<le> i" and "i + 2 \<le> length ir"
  shows "derive ir ! i = ir ! (i + 1) - ir ! (i - 1)"
proof -
  obtain j where j: "i = Suc j"
    using assms(1) by (cases i) simp_all
  have "j < length [1 ..< length ir - 1]"
    using assms(2) j by simp
  then show ?thesis
    using j by (simp add: derive_eq nth_append)
qed

text \<open>
  Claim C1. For every signal \<open>s\<close> with at least two samples, \<open>derive s\<close> has exactly as
  many samples as \<open>s\<close>, its first and its last sample are zero, and every sample in between
  is the central difference \<open>s[i+1] - s[i-1]\<close>, whatever the sample type and its
  subtraction are. On \<open>[0, 1, 2, 3, 4]\<close> the result is \<open>[0, 2, 2, 2, 0]\<close>; these
  differences are exact in float64 as well.
\<close>

theorem derive_central_difference:
  "(2 \<le> length (s :: 'a::{zero,minus} list) \<longrightarrow>
      length (derive s) = length s \<and>
      derive s ! 0 = 0 \<and>
      derive s ! (length s - 1) = 0 \<and>
      (\<forall>i. 1 \<le> i \<and> i + 2 \<le> length s \<longrightarrow> derive s ! i = s ! (i + 1) - s ! (i - 1))) \<and>
   derive [0, 1, 2, 3, 4 :: real] = [0, 2, 2, 2, 0]"
proof -
  have ex: "derive [0, 1, 2, 3, 4 :: real] = [0, 2, 2, 2, 0]"
    by (simp add: derive_eq upt_rec)
  have gen: "length (derive s) = length s \<and> derive s ! 0 = 0 \<and>
      derive s ! (length s - 1) = 0 \<and>
      (\<forall>i. 1 \<le> i \<and> i + 2 \<le> length s \<longrightarrow> derive s ! i = s ! (i + 1) - s ! (i - 1))"
    if n: "2 \<le> length s"
  proof -
    have len: "length (derive s) = length s"
      using n by (simp add: length_derive)
    have "derive s ! (length s - 1) = 0"
      using derive_last [of s] len by simp
    then show ?thesis
      using len derive_first [of s] derive_inner [of _ s] by simp
  qed
  from ex gen show ?thesis by blast
qed

theorem derive_central_difference_witness:
  "2 \<le> length [0, 0, 0, 1, 1, 1 :: real] \<and>
   length (derive [0, 0, 0, 1, 1, 1 :: real]) = 6 \<and>
   derive [0, 0, 0, 1, 1, 1 :: real] ! 0 = 0 \<and>
   derive [0, 0, 0, 1, 1, 1 :: real] ! 5 = 0 \<and>
   derive [0, 0, 0, 1, 1, 1 :: real] ! 2 = 1"
proof -
  let ?s = "[0, 0, 0, 1, 1, 1 :: real]"
  have n: "2 \<le> length ?s" by simp
  from derive_central_difference [of ?s] n
  have len: "length (derive ?s) = length ?s"
    and first: "derive ?s ! 0 = 0"
    and last: "derive ?s ! (length ?s - 1) = 0"
    and inner: "\<forall>i. 1 \<le> i \<and> i + 2 \<le> length ?s \<longrightarrow> derive ?s ! i = ?s ! (i + 1) - ?s ! (i - 1)"
    by blast+
  from inner have "1 \<le> (2::nat) \<and> 2 + 2 \<le> length ?s \<longrightarrow> derive ?s ! 2 = ?s ! (2 + 1) - ?s ! (2 - 1)"
    by (rule spec)
  then have inner2: "derive ?s ! 2 = 1" by simp
  have l6: "length ?s = 6" and l5: "length ?s - 1 = 5" by simp_all
  from len have len6: "length (derive ?s) = 6" unfolding l6 .
  from last have last5: "derive ?s ! 5 = 0" unfolding l5 .
  from n len6 first last5 inner2 show ?thesis by blast
qed

text \<open>
  Claim C10. A signal with no sample or with one sample is mapped to the two zeros that
  are appended around the (empty) loop, so the result is longer than the input.
\<close>

theorem derive_short_input:
  "length (s :: 'a::{zero,minus} list) < 2 \<Longrightarrow> derive s = [0, 0] \<and> length s < length (derive s)"
proof -
  assume n: "length s < 2"
  then have "[1 ..< length s - 1] = []" by simp
  then have d: "derive s = [0, 0]" by (simp add: derive_eq)
  with n have "length s < length (derive s)" by simp
  with d show "derive s = [0, 0] \<and> length s < length (derive s)" by simp
qed

theorem derive_short_input_witness:
  "length [5 :: real] < 2 \<and> derive [5 :: real] = [0, 0] \<and> length [5 :: real] < length (derive [5 :: real])"
  using derive_short_input [of "[5]"] by simp

subsection \<open>Facts about the rounding to binary64\<close>

lemmas b64_eval = round_b64_def expo_def compute_bitlen pow2_def round_half_even_def Let_def

lemma pow2_powr: "pow2 e = 2 powr (real_of_int e)"
proof (cases "0 \<le> e")
  case True
  then have "2 powr (real_of_int e) = 2 powr (real (nat e))" by simp
  also have "\<dots> = 2 ^ nat e" by (rule powr_realpow) simp
  finally show ?thesis using True by (simp add: pow2_def)
next
  case False
  then have "2 powr (real_of_int e) = 2 powr (- real (nat (- e)))" by simp
  also have "\<dots> = 1 / 2 powr (real (nat (- e)))" by (rule powr_minus_divide)
  also have "2 powr (real (nat (- e))) = 2 ^ nat (- e)" by (rule powr_realpow) simp
  finally show ?thesis using False by (simp add: pow2_def)
qed

lemma pow2_pos: "0 < pow2 e"
  by (simp add: pow2_powr)

lemma pow2_add: "pow2 (a + b) = pow2 a * pow2 b"
  by (simp add: pow2_powr powr_add)

lemma pow2_minus: "pow2 (- e) = 1 / pow2 e"
  by (simp add: pow2_powr powr_minus_divide)

lemma pow2_mono: "a \<le> b \<Longrightarrow> pow2 a \<le> pow2 b"
  by (simp add: pow2_powr)

lemma pow2_nat: "pow2 (int n) = 2 ^ n"
  by (simp add: pow2_def)

lemma pow2_cancel: "pow2 e * pow2 (- e) = 1"
  using pow2_pos [of e] by (simp add: pow2_minus)

lemma expo_bounds:
  assumes "x \<noteq> 0"
  shows "pow2 (expo x) \<le> \<bar>x\<bar>" and "\<bar>x\<bar> < pow2 (expo x + 1)"
proof -
  have "pow2 (expo x) \<le> \<bar>x\<bar> \<and> \<bar>x\<bar> < pow2 (expo x + 1)"
  proof (cases "1 \<le> \<bar>x\<bar>")
    case True
    let ?m = "\<lfloor>\<bar>x\<bar>\<rfloor>"
    have m: "0 < ?m" using True by simp
    have e: "expo x = bitlen ?m - 1" using True by (simp add: expo_def)
    have b1: "1 \<le> bitlen ?m" using m by (simp add: bitlen_alt_def)
    from bitlen_bounds [OF m]
    have lo: "2 ^ nat (bitlen ?m - 1) \<le> ?m" and hi: "?m < 2 ^ nat (bitlen ?m)" by simp_all
    have "pow2 (expo x) = 2 ^ nat (bitlen ?m - 1)"
      using b1 by (simp add: e pow2_def)
    also have "\<dots> \<le> real_of_int ?m"
      using lo by (metis of_int_le_iff of_int_numeral of_int_power)
    also have "\<dots> \<le> \<bar>x\<bar>" by simp
    finally have A: "pow2 (expo x) \<le> \<bar>x\<bar>" .
    have "?m + 1 \<le> 2 ^ nat (bitlen ?m)" using hi by simp
    then have "real_of_int (?m + 1) \<le> 2 ^ nat (bitlen ?m)"
      by (metis of_int_le_iff of_int_numeral of_int_power)
    moreover have "\<bar>x\<bar> < real_of_int (?m + 1)" by linarith
    ultimately have "\<bar>x\<bar> < 2 ^ nat (bitlen ?m)" by linarith
    moreover have "pow2 (expo x + 1) = 2 ^ nat (bitlen ?m)"
      using b1 by (simp add: e pow2_def)
    ultimately have B: "\<bar>x\<bar> < pow2 (expo x + 1)" by simp
    from A B show ?thesis ..
  next
    case False
    let ?y = "1 / \<bar>x\<bar>"
    let ?n = "\<lceil>?y\<rceil> - 1"
    have xpos: "0 < \<bar>x\<bar>" using assms by simp
    have y1: "1 < ?y" using False xpos by simp
    then have "2 \<le> \<lceil>?y\<rceil>" by linarith
    then have n: "0 < ?n" by simp
    have e: "expo x = - bitlen ?n" using False by (simp add: expo_def)
    have b1: "1 \<le> bitlen ?n" using n by (simp add: bitlen_alt_def)
    from bitlen_bounds [OF n]
    have lo: "2 ^ nat (bitlen ?n - 1) \<le> ?n" and hi: "?n < 2 ^ nat (bitlen ?n)" by simp_all
    have "real_of_int ?n < ?y" by linarith
    moreover have "(2::real) ^ nat (bitlen ?n - 1) \<le> real_of_int ?n"
      using lo by (metis of_int_le_iff of_int_numeral of_int_power)
    ultimately have ylo: "2 ^ nat (bitlen ?n - 1) < ?y" by linarith
    have "?n + 1 \<le> 2 ^ nat (bitlen ?n)" using hi by simp
    then have "real_of_int (?n + 1) \<le> 2 ^ nat (bitlen ?n)"
      by (metis of_int_le_iff of_int_numeral of_int_power)
    moreover have "?y \<le> real_of_int (?n + 1)" by linarith
    ultimately have yhi: "?y \<le> 2 ^ nat (bitlen ?n)" by linarith
    have p1: "pow2 (expo x) = 1 / 2 ^ nat (bitlen ?n)"
      using b1 by (simp add: e pow2_def)
    have p2: "pow2 (expo x + 1) = 1 / 2 ^ nat (bitlen ?n - 1)"
    proof (cases "bitlen ?n = 1")
      case True
      then show ?thesis by (simp add: e pow2_def)
    next
      case False
      with b1 have "1 < bitlen ?n" by simp
      then show ?thesis by (simp add: e pow2_def)
    qed
    have A: "pow2 (expo x) \<le> \<bar>x\<bar>"
      using yhi xpos unfolding p1 by (simp add: field_simps)
    have B: "\<bar>x\<bar> < pow2 (expo x + 1)"
      using ylo xpos unfolding p2 by (simp add: field_simps)
    from A B show ?thesis ..
  qed
  then show "pow2 (expo x) \<le> \<bar>x\<bar>" and "\<bar>x\<bar> < pow2 (expo x + 1)" by simp_all
qed

lemma expo_unique:
  assumes "pow2 e \<le> \<bar>x\<bar>" and "\<bar>x\<bar> < pow2 (e + 1)"
  shows "expo x = e"
proof -
  have nz: "x \<noteq> 0" using assms(1) pow2_pos [of e] by auto
  note b = expo_bounds [OF nz]
  have "\<not> expo x < e"
  proof
    assume "expo x < e"
    then have "pow2 (expo x + 1) \<le> pow2 e" by (intro pow2_mono) simp
    with b(2) assms(1) show False by simp
  qed
  moreover have "\<not> e < expo x"
  proof
    assume "e < expo x"
    then have "pow2 (e + 1) \<le> pow2 (expo x)" by (intro pow2_mono) simp
    with b(1) assms(2) show False by simp
  qed
  ultimately show ?thesis by simp
qed

lemma expo_minus: "expo (- x) = expo x"
  by (simp add: expo_def)

lemma expo_mono:
  assumes "0 < x" and "x \<le> y"
  shows "expo x \<le> expo y"
proof (rule ccontr)
  assume "\<not> expo x \<le> expo y"
  then have "expo y + 1 \<le> expo x" by simp
  then have "pow2 (expo y + 1) \<le> pow2 (expo x)" by (rule pow2_mono)
  moreover have "y < pow2 (expo y + 1)" using expo_bounds(2) [of y] assms by simp
  moreover have "pow2 (expo x) \<le> x" using expo_bounds(1) [of x] assms by simp
  ultimately show False using assms(2) by simp
qed

lemma rhe_of_int: "round_half_even (of_int n) = n"
  by (simp add: round_half_even_def)

lemma rhe_cases:
  "round_half_even x = \<lfloor>x\<rfloor> \<or> round_half_even x = \<lfloor>x\<rfloor> + 1"
  by (simp add: round_half_even_def Let_def)

lemma rhe_floor_le: "\<lfloor>x\<rfloor> \<le> round_half_even x"
  using rhe_cases [of x] by auto

lemma rhe_le_floor: "round_half_even x \<le> \<lfloor>x\<rfloor> + 1"
  using rhe_cases [of x] by auto

lemma rhe_mono:
  assumes "x \<le> y"
  shows "round_half_even x \<le> round_half_even y"
proof (cases "\<lfloor>x\<rfloor> < \<lfloor>y\<rfloor>")
  case True
  then have "round_half_even x \<le> \<lfloor>y\<rfloor>" using rhe_le_floor [of x] by simp
  then show ?thesis using rhe_floor_le [of y] by simp
next
  case False
  then have eq: "\<lfloor>x\<rfloor> = \<lfloor>y\<rfloor>" using floor_mono [OF assms] by simp
  have "x - of_int \<lfloor>y\<rfloor> \<le> y - of_int \<lfloor>y\<rfloor>" using assms by simp
  then show ?thesis
    by (auto simp: round_half_even_def Let_def eq)
qed

lemma rhe_minus: "round_half_even (- x) = - round_half_even x"
proof (cases "x \<in> \<int>")
  case True
  then obtain n where "x = of_int n" by (auto elim: Ints_cases)
  then have "- x = of_int (- n)" by simp
  then show ?thesis using \<open>x = of_int n\<close> rhe_of_int by metis
next
  case False
  then have "x \<noteq> of_int \<lfloor>x\<rfloor>" by (metis Ints_of_int)
  then have "\<lceil>x\<rceil> = \<lfloor>x\<rfloor> + 1" by (simp add: ceiling_altdef)
  moreover have "\<lfloor>- x\<rfloor> = - \<lceil>x\<rceil>" by (simp add: ceiling_def)
  ultimately have f: "\<lfloor>- x\<rfloor> = - \<lfloor>x\<rfloor> - 1" by simp
  have d: "- x - of_int \<lfloor>- x\<rfloor> = 1 - (x - of_int \<lfloor>x\<rfloor>)"
    by (simp add: f)
  show ?thesis
    unfolding round_half_even_def Let_def d
    by (auto simp: f)
qed

lemma round_b64_nonzero:
  "x \<noteq> 0 \<Longrightarrow> round_b64 x = of_int (round_half_even (x * pow2 (52 - expo x))) * pow2 (expo x - 52)"
  by (simp add: round_b64_def Let_def)

lemma round_b64_minus: "round_b64 (- x) = - round_b64 x"
  by (simp add: round_b64_def Let_def expo_minus rhe_minus)

lemma scaled_bounds:
  assumes "0 < x"
  shows "2 ^ 52 \<le> x * pow2 (52 - expo x)" and "x * pow2 (52 - expo x) < 2 ^ 53"
proof -
  have nz: "x \<noteq> 0" using assms by simp
  have p: "pow2 (52 - expo x) = 2 ^ 52 * pow2 (- expo x)"
    using pow2_add [of 52 "- expo x"] pow2_nat [of 52] by simp
  have c: "pow2 (expo x) * pow2 (- expo x) = 1" by (rule pow2_cancel)
  have q: "0 < pow2 (- expo x)" by (rule pow2_pos)
  have "pow2 (expo x) * pow2 (- expo x) \<le> x * pow2 (- expo x)"
    using expo_bounds(1) [OF nz] assms q by (intro mult_right_mono) simp_all
  then have "1 \<le> x * pow2 (- expo x)" using c by simp
  then show "2 ^ 52 \<le> x * pow2 (52 - expo x)" unfolding p by simp
  have "pow2 (expo x + 1) = 2 * pow2 (expo x)"
    using pow2_add [of "expo x" 1] pow2_nat [of 1] by simp
  moreover have "x * pow2 (- expo x) < pow2 (expo x + 1) * pow2 (- expo x)"
    using expo_bounds(2) [OF nz] assms q by (intro mult_strict_right_mono) simp_all
  ultimately have "x * pow2 (- expo x) < 2" using c by simp
  then show "x * pow2 (52 - expo x) < 2 ^ 53" unfolding p by simp
qed

lemma round_b64_pos_bounds:
  assumes "0 < x"
  shows "pow2 (expo x) \<le> round_b64 x" and "round_b64 x \<le> pow2 (expo x + 1)"
proof -
  let ?q = "x * pow2 (52 - expo x)"
  let ?m = "round_half_even ?q"
  have r: "round_b64 x = of_int ?m * pow2 (expo x - 52)"
    using assms by (simp add: round_b64_nonzero)
  have "round_half_even (of_int (2 ^ 52)) \<le> ?m"
    using scaled_bounds(1) [OF assms] by (intro rhe_mono) simp
  then have lo: "(2::real) ^ 52 \<le> of_int ?m"
    unfolding rhe_of_int by (metis of_int_le_iff of_int_numeral of_int_power)
  have "?m \<le> round_half_even (of_int (2 ^ 53))"
    using scaled_bounds(2) [OF assms] by (intro rhe_mono) simp
  then have hi: "of_int ?m \<le> (2::real) ^ 53"
    unfolding rhe_of_int by (metis of_int_le_iff of_int_numeral of_int_power)
  have a: "pow2 (expo x) = 2 ^ 52 * pow2 (expo x - 52)"
  proof -
    have "pow2 (expo x) = pow2 (52 + (expo x - 52))" by simp
    also have "\<dots> = pow2 52 * pow2 (expo x - 52)" by (rule pow2_add)
    finally show ?thesis using pow2_nat [of 52] by simp
  qed
  have b: "pow2 (expo x + 1) = 2 ^ 53 * pow2 (expo x - 52)"
  proof -
    have "expo x + 1 = 53 + (expo x - 52)" by simp
    then have "pow2 (expo x + 1) = pow2 (53 + (expo x - 52))" by (rule arg_cong)
    also have "\<dots> = pow2 53 * pow2 (expo x - 52)" by (rule pow2_add)
    finally show ?thesis using pow2_nat [of 53] by simp
  qed
  have p: "0 \<le> pow2 (expo x - 52)" using pow2_pos [of "expo x - 52"] by simp
  show "pow2 (expo x) \<le> round_b64 x"
    unfolding r a using lo p by (intro mult_right_mono)
  show "round_b64 x \<le> pow2 (expo x + 1)"
    unfolding r b using hi p by (intro mult_right_mono)
qed

lemma round_b64_pos: "0 < x \<Longrightarrow> 0 < round_b64 x"
  using round_b64_pos_bounds(1) [of x] pow2_pos [of "expo x"] by simp

lemma round_b64_mono_pos:
  assumes "0 < x" and "x \<le> y"
  shows "round_b64 x \<le> round_b64 y"
proof -
  have y: "0 < y" using assms by simp
  have "expo x \<le> expo y" using assms by (rule expo_mono)
  then consider "expo x = expo y" | "expo x + 1 \<le> expo y" by linarith
  then show ?thesis
  proof cases
    case 1
    have "x * pow2 (52 - expo y) \<le> y * pow2 (52 - expo y)"
      using assms(2) pow2_pos [of "52 - expo y"] by (intro mult_right_mono) simp_all
    then have "round_half_even (x * pow2 (52 - expo y)) \<le> round_half_even (y * pow2 (52 - expo y))"
      by (rule rhe_mono)
    then have "real_of_int (round_half_even (x * pow2 (52 - expo y))) * pow2 (expo y - 52)
         \<le> real_of_int (round_half_even (y * pow2 (52 - expo y))) * pow2 (expo y - 52)"
      using pow2_pos [of "expo y - 52"] by (intro mult_right_mono) simp_all
    then show ?thesis
      using assms(1) y 1 by (simp add: round_b64_nonzero)
  next
    case 2
    have "round_b64 x \<le> pow2 (expo x + 1)" using assms(1) by (rule round_b64_pos_bounds)
    also have "\<dots> \<le> pow2 (expo y)" using 2 by (rule pow2_mono)
    also have "\<dots> \<le> round_b64 y" using y by (rule round_b64_pos_bounds)
    finally show ?thesis .
  qed
qed

lemma round_b64_zero: "round_b64 0 = 0"
  by (simp add: round_b64_def)

lemma round_b64_mono: "mono round_b64"
proof (rule monoI)
  fix x y :: real
  assume le: "x \<le> y"
  consider "0 < x" | "x = 0" | "x < 0" "0 \<le> y" | "x < 0" "y < 0" by linarith
  then show "round_b64 x \<le> round_b64 y"
  proof cases
    case 1
    then show ?thesis using le by (rule round_b64_mono_pos)
  next
    case 2
    show ?thesis
    proof (cases "y = 0")
      case True
      with 2 show ?thesis by simp
    next
      case False
      with le 2 have "0 < y" by simp
      then show ?thesis using round_b64_pos [of y] 2 by (simp add: round_b64_zero)
    qed
  next
    case 3
    have "0 < round_b64 (- x)" using 3(1) by (intro round_b64_pos) simp
    then have a: "round_b64 x < 0" by (simp add: round_b64_minus)
    have "0 \<le> round_b64 y"
    proof (cases "y = 0")
      case True
      then show ?thesis by (simp add: round_b64_zero)
    next
      case False
      with 3(2) have "0 < y" by simp
      then show ?thesis using round_b64_pos [of y] by simp
    qed
    with a show ?thesis by simp
  next
    case 4
    have "round_b64 (- y) \<le> round_b64 (- x)"
      using 4 le by (intro round_b64_mono_pos) simp_all
    then show ?thesis by (simp add: round_b64_minus)
  qed
qed

lemma pow2_less_imp: "pow2 a < pow2 b \<Longrightarrow> a < b"
  using pow2_mono [of b a] by (cases "a < b") simp_all

lemma round_b64_fix:
  assumes "\<bar>m\<bar> < 2 ^ 53"
  shows "round_b64 (of_int m * pow2 k) = of_int m * pow2 k"
proof (cases "m = 0")
  case True
  then show ?thesis by (simp add: round_b64_zero)
next
  case False
  let ?y = "real_of_int m * pow2 k"
  have nz: "?y \<noteq> 0" using False pow2_pos [of k] by simp
  have "real_of_int \<bar>m\<bar> < 2 ^ 53"
    using assms by (metis of_int_less_iff of_int_numeral of_int_power)
  then have "real_of_int \<bar>m\<bar> * pow2 k < 2 ^ 53 * pow2 k"
    using pow2_pos [of k] by (intro mult_strict_right_mono)
  moreover have "\<bar>?y\<bar> = real_of_int \<bar>m\<bar> * pow2 k"
    using pow2_pos [of k] by (simp add: abs_mult)
  moreover have "pow2 (53 + k) = 2 ^ 53 * pow2 k"
    using pow2_add [of 53 k] pow2_nat [of 53] by simp
  ultimately have "\<bar>?y\<bar> < pow2 (53 + k)" by simp
  with expo_bounds(1) [OF nz] have "pow2 (expo ?y) < pow2 (53 + k)" by simp
  then have "expo ?y < 53 + k" by (rule pow2_less_imp)
  then have j: "0 \<le> k + 52 - expo ?y" by simp
  define j where "j = nat (k + 52 - expo ?y)"
  have jk: "int j = k + (52 - expo ?y)" using j by (simp add: j_def)
  have "?y * pow2 (52 - expo ?y) = real_of_int m * (pow2 k * pow2 (52 - expo ?y))"
    by simp
  also have "pow2 k * pow2 (52 - expo ?y) = pow2 (int j)"
    unfolding jk by (rule pow2_add [symmetric])
  also have "real_of_int m * pow2 (int j) = real_of_int (m * 2 ^ j)"
    by (simp add: pow2_nat)
  finally have q: "?y * pow2 (52 - expo ?y) = real_of_int (m * 2 ^ j)" .
  have "round_b64 ?y = real_of_int (m * 2 ^ j) * pow2 (expo ?y - 52)"
    using nz unfolding round_b64_nonzero [OF nz] q rhe_of_int by simp
  also have "\<dots> = real_of_int m * (pow2 (int j) * pow2 (expo ?y - 52))"
    by (simp add: pow2_nat)
  also have "pow2 (int j) * pow2 (expo ?y - 52) = pow2 (int j + (expo ?y - 52))"
    by (rule pow2_add [symmetric])
  also have "int j + (expo ?y - 52) = k" using jk by simp
  finally show ?thesis .
qed

lemma round_b64_of_int: "\<bar>m\<bar> < 2 ^ 53 \<Longrightarrow> round_b64 (of_int m) = of_int m"
  using round_b64_fix [of m 0] by (simp add: pow2_def)

lemma significand_bounds:
  assumes "0 < x"
  shows "2 ^ 52 \<le> round_half_even (x * pow2 (52 - expo x))"
    and "round_half_even (x * pow2 (52 - expo x)) \<le> 2 ^ 53"
proof -
  have "round_half_even (of_int (2 ^ 52)) \<le> round_half_even (x * pow2 (52 - expo x))"
    using scaled_bounds(1) [OF assms] by (intro rhe_mono) simp
  then show "2 ^ 52 \<le> round_half_even (x * pow2 (52 - expo x))"
    unfolding rhe_of_int .
  have "round_half_even (x * pow2 (52 - expo x)) \<le> round_half_even (of_int (2 ^ 53))"
    using scaled_bounds(2) [OF assms] by (intro rhe_mono) simp
  then show "round_half_even (x * pow2 (52 - expo x)) \<le> 2 ^ 53"
    unfolding rhe_of_int .
qed

lemma round_b64_idem_pos:
  assumes "0 < x"
  shows "round_b64 (round_b64 x) = round_b64 x"
proof -
  let ?m = "round_half_even (x * pow2 (52 - expo x))"
  have r: "round_b64 x = of_int ?m * pow2 (expo x - 52)"
    using assms by (simp add: round_b64_nonzero)
  note b = significand_bounds [OF assms]
  show ?thesis
  proof (cases "?m = 2 ^ 53")
    case True
    have "round_b64 x = 2 ^ 53 * pow2 (expo x - 52)"
      unfolding r True by simp
    also have "\<dots> = pow2 53 * pow2 (expo x - 52)" by (simp add: pow2_nat [of 53, simplified])
    also have "\<dots> = pow2 (53 + (expo x - 52))" by (rule pow2_add [symmetric])
    finally have "round_b64 x = of_int 1 * pow2 (53 + (expo x - 52))" by simp
    moreover have "round_b64 (of_int 1 * pow2 (53 + (expo x - 52))) = of_int 1 * pow2 (53 + (expo x - 52))"
      by (rule round_b64_fix) simp
    ultimately show ?thesis by simp
  next
    case False
    with b have "\<bar>?m\<bar> < 2 ^ 53" by simp
    then show ?thesis unfolding r by (rule round_b64_fix)
  qed
qed

lemma round_b64_idem: "round_b64 (round_b64 x) = round_b64 x"
proof -
  consider "0 < x" | "x = 0" | "x < 0" by linarith
  then show ?thesis
  proof cases
    case 1
    then show ?thesis by (rule round_b64_idem_pos)
  next
    case 2
    then show ?thesis by (simp add: round_b64_zero)
  next
    case 3
    then have "round_b64 (round_b64 (- x)) = round_b64 (- x)"
      by (intro round_b64_idem_pos) simp
    then show ?thesis by (simp add: round_b64_minus)
  qed
qed

subsection \<open>Band limiting\<close>

lemma band_limit_loop_Inr:
  "\<forall>i\<in>set is. i < length fft \<Longrightarrow>
   band_limit_loop freqs is fft =
     Inr (map (\<lambda>j. if j \<in> set is \<and> (\<bar>freqs ! j\<bar> < 20 \<or> \<bar>freqs ! j\<bar> > 20000) then 0 else fft ! j)
            [0 ..< length fft])"
proof (induction "is" arbitrary: fft)
  case Nil
  show ?case by (simp add: map_nth)
next
  case (Cons i "is")
  have i: "i < length fft" and rest: "\<forall>k\<in>set is. k < length fft"
    using Cons.prems by simp_all
  show ?case
  proof (cases "\<bar>freqs ! i\<bar> < 20 \<or> \<bar>freqs ! i\<bar> > 20000")
    case True
    have "band_limit_loop freqs (i # is) fft = band_limit_loop freqs is (fft[i := 0])"
      using True i by (simp add: Let_def)
    also have "\<dots> = Inr (map (\<lambda>j. if j \<in> set is \<and> (\<bar>freqs ! j\<bar> < 20 \<or> \<bar>freqs ! j\<bar> > 20000) then 0 else fft[i := 0] ! j)
            [0 ..< length (fft[i := 0])])"
      using rest by (intro Cons.IH) simp
    also have "\<dots> = Inr (map (\<lambda>j. if j \<in> set (i # is) \<and> (\<bar>freqs ! j\<bar> < 20 \<or> \<bar>freqs ! j\<bar> > 20000) then 0 else fft ! j)
            [0 ..< length fft])"
    proof -
      have "(if j \<in> set is \<and> (\<bar>freqs ! j\<bar> < 20 \<or> \<bar>freqs ! j\<bar> > 20000) then 0 else fft[i := 0] ! j) =
            (if j \<in> set (i # is) \<and> (\<bar>freqs ! j\<bar> < 20 \<or> \<bar>freqs ! j\<bar> > 20000) then 0 else fft ! j)"
        if "j < length fft" for j
        using True i that by (cases "j = i") auto
      then show ?thesis by simp
    qed
    finally show ?thesis .
  next
    case False
    have "band_limit_loop freqs (i # is) fft = band_limit_loop freqs is fft"
      using False by (simp add: Let_def)
    also have "\<dots> = Inr (map (\<lambda>j. if j \<in> set is \<and> (\<bar>freqs ! j\<bar> < 20 \<or> \<bar>freqs ! j\<bar> > 20000) then 0 else fft ! j)
            [0 ..< length fft])"
      using rest by (rule Cons.IH)
    also have "\<dots> = Inr (map (\<lambda>j. if j \<in> set (i # is) \<and> (\<bar>freqs ! j\<bar> < 20 \<or> \<bar>freqs ! j\<bar> > 20000) then 0 else fft ! j)
            [0 ..< length fft])"
      using False by auto
    finally show ?thesis .
  qed
qed

text \<open>
  Claim C2. When the list of frequencies and the transform have the same length (numpy
  builds the first from the length of the second), the loop raises nothing, keeps the
  length, and sets bin \<open>i\<close> to zero exactly when \<open>|freqs[i]| < 20\<close> or
  \<open>|freqs[i]| > 20000\<close>; a bin with \<open>20 \<le> |freqs[i]| \<le> 20000\<close>, both ends included,
  keeps its value.
\<close>

theorem band_limit_bins:
  assumes "length freqs = length ndata_fft"
  shows "\<exists>out. band_limit freqs ndata_fft = Inr out \<and> length out = length ndata_fft \<and>
           (\<forall>i < length ndata_fft.
              out ! i = (if \<bar>freqs ! i\<bar> < 20 \<or> \<bar>freqs ! i\<bar> > 20000 then 0 else ndata_fft ! i)) \<and>
           (\<forall>i < length ndata_fft.
              20 \<le> \<bar>freqs ! i\<bar> \<and> \<bar>freqs ! i\<bar> \<le> 20000 \<longrightarrow> out ! i = ndata_fft ! i)"
proof -
  let ?out = "map (\<lambda>j. if j \<in> set [0 ..< length freqs] \<and> (\<bar>freqs ! j\<bar> < 20 \<or> \<bar>freqs ! j\<bar> > 20000) then 0 else ndata_fft ! j)
            [0 ..< length ndata_fft]"
  have "band_limit freqs ndata_fft = Inr ?out"
    unfolding band_limit_def using assms by (intro band_limit_loop_Inr) simp
  moreover have "length ?out = length ndata_fft" by simp
  moreover have "\<forall>i < length ndata_fft.
      ?out ! i = (if \<bar>freqs ! i\<bar> < 20 \<or> \<bar>freqs ! i\<bar> > 20000 then 0 else ndata_fft ! i)"
    using assms by simp
  moreover have "\<forall>i < length ndata_fft.
      20 \<le> \<bar>freqs ! i\<bar> \<and> \<bar>freqs ! i\<bar> \<le> 20000 \<longrightarrow> ?out ! i = ndata_fft ! i"
    using assms by simp
  ultimately show ?thesis by blast
qed

theorem band_limit_bins_witness:
  "length [20, 39 / 2, 40001 / 2, - 20000 :: real] = length [1, 2, 3, 4 :: complex] \<and>
   band_limit [20, 39 / 2, 40001 / 2, - 20000] [1, 2, 3, 4] = Inr [1, 0, 0, 4]"
proof -
  let ?f = "[20, 39 / 2, 40001 / 2, - 20000 :: real]"
  let ?x = "[1, 2, 3, 4 :: complex]"
  have len: "length ?f = length ?x" by simp
  from band_limit_bins [OF len] obtain out
    where r: "band_limit ?f ?x = Inr out"
      and l: "length out = length ?x"
      and v: "\<forall>i < length ?x. out ! i = (if \<bar>?f ! i\<bar> < 20 \<or> \<bar>?f ! i\<bar> > 20000 then 0 else ?x ! i)"
    by blast
  have "out ! i = [1, 0, 0, 4] ! i" if "i < 4" for i
  proof -
    from that consider "i = 0" | "i = 1" | "i = 2" | "i = 3" by linarith
    then show ?thesis
    proof cases
      case 1
      with v have "out ! 0 = (if \<bar>?f ! 0\<bar> < 20 \<or> \<bar>?f ! 0\<bar> > 20000 then 0 else ?x ! 0)" by simp
      with 1 show ?thesis by simp
    next
      case 2
      with v have "out ! 1 = (if \<bar>?f ! 1\<bar> < 20 \<or> \<bar>?f ! 1\<bar> > 20000 then 0 else ?x ! 1)" by simp
      with 2 show ?thesis by simp
    next
      case 3
      with v have "out ! 2 = (if \<bar>?f ! 2\<bar> < 20 \<or> \<bar>?f ! 2\<bar> > 20000 then 0 else ?x ! 2)" by simp
      with 3 show ?thesis by simp
    next
      case 4
      with v have "out ! 3 = (if \<bar>?f ! 3\<bar> < 20 \<or> \<bar>?f ! 3\<bar> > 20000 then 0 else ?x ! 3)" by simp
      with 4 show ?thesis by simp
    qed
  qed
  with l have "out = [1, 0, 0, 4]" by (intro nth_equalityI) simp_all
  with r len show ?thesis by simp
qed

subsection \<open>Peak rescale\<close>

lemma Max_abs_eq_0_iff:
  assumes "xs \<noteq> []"
  shows "Max (set (map abs xs)) = (0::real) \<longleftrightarrow> (\<forall>x\<in>set xs. x = 0)"
proof
  assume m: "Max (set (map abs xs)) = 0"
  show "\<forall>x\<in>set xs. x = 0"
  proof
    fix x assume "x \<in> set xs"
    then have "\<bar>x\<bar> \<le> Max (set (map abs xs))"
      by (intro Max_ge) auto
    with m show "x = 0" by simp
  qed
next
  assume z: "\<forall>x\<in>set xs. x = 0"
  have "Max (set (map abs xs)) \<in> set (map abs xs)"
    using assms by (intro Max_in) auto
  with z show "Max (set (map abs xs)) = 0" by auto
qed

lemma rescale_nonzero:
  assumes "\<exists>x\<in>set ndata. x \<noteq> 0"
  shows "\<exists>peak. np_max (map abs ndata) = Inr peak \<and> peak \<noteq> 0 \<and>
           rescale rnd ndata = Inr (map (\<lambda>x. rnd (x * rnd (1 / peak))) ndata)"
proof -
  from assms have ne: "ndata \<noteq> []" by auto
  let ?peak = "Max (set (map abs ndata))"
  have p: "np_max (map abs ndata) = Inr ?peak"
    using ne by (simp add: np_max_def)
  have nz: "?peak \<noteq> 0"
    using assms Max_abs_eq_0_iff [OF ne] by blast
  have "rescale rnd ndata = Inr (map (\<lambda>x. rnd (x * rnd (1 / ?peak))) ndata)"
    using p nz by (simp add: rescale_def fdiv_def fmul_def)
  with p nz show ?thesis by blast
qed

lemma rescale_all_zero:
  assumes "ndata \<noteq> []" and "\<forall>x\<in>set ndata. x = 0"
  shows "np_max (map abs ndata) = Inr 0 \<and> rescale rnd ndata = Inl FloatDivideByZero"
proof -
  have "Max (set (map abs ndata)) = 0"
    using assms Max_abs_eq_0_iff [OF assms(1)] by blast
  then have p: "np_max (map abs ndata) = Inr 0"
    using assms(1) by (simp add: np_max_def)
  then show ?thesis
    by (simp add: rescale_def fdiv_def)
qed

text \<open>
  Claim C3. The rescale step divides by the peak without testing it. A signal with a
  nonzero sample has a nonzero peak, and the step returns every sample multiplied by the
  rounded reciprocal of the peak. A signal that has samples, all of them zero, has peak
  zero, and the step is the division by zero, not the unchanged signal. The signal
  that reaches the step is never empty, since \<open>derive\<close> returns at least two samples.
\<close>

theorem rescale_unguarded_division:
  "((\<exists>x\<in>set ndata. x \<noteq> 0) \<longrightarrow>
      (\<exists>peak. np_max (map abs ndata) = Inr peak \<and> peak \<noteq> 0 \<and>
           rescale rnd ndata = Inr (map (\<lambda>x. rnd (x * rnd (1 / peak))) ndata))) \<and>
   (ndata \<noteq> [] \<and> (\<forall>x\<in>set ndata. x = 0) \<longrightarrow>
      np_max (map abs ndata) = Inr 0 \<and> rescale rnd ndata = Inl FloatDivideByZero) \<and>
   derive s \<noteq> ([] :: real list)"
  using rescale_nonzero [of ndata rnd] rescale_all_zero [of ndata rnd] derive_not_Nil [of s]
  by blast



theorem rescale_unguarded_division_witness:
  "rescale round_b64 [0, 1 / 2, - 1 / 4, 0] = Inr [0, 1, - 1 / 2, 0] \<and>
   rescale round_b64 (derive [0, 0, 0, 0]) = Inl FloatDivideByZero"
proof -
  let ?xs = "[0, 1 / 2, - 1 / 4, 0 :: real]"
  have "\<exists>x\<in>set ?xs. x \<noteq> 0" by simp
  with rescale_unguarded_division [of ?xs round_b64]
  obtain peak where p: "np_max (map abs ?xs) = Inr peak"
    and r: "rescale round_b64 ?xs = Inr (map (\<lambda>x. round_b64 (x * round_b64 (1 / peak))) ?xs)"
    by blast
  from p have "peak = 1 / 2" by (simp add: np_max_def)
  with r have first: "rescale round_b64 ?xs = Inr [0, 1, - 1 / 2, 0]"
    by (simp add: b64_eval)
  have d: "derive [0, 0, 0, 0 :: real] = [0, 0, 0, 0]"
    by (simp add: derive_eq upt_rec)
  have "[0, 0, 0, 0 :: real] \<noteq> [] \<and> (\<forall>x\<in>set [0, 0, 0, 0 :: real]. x = 0)" by simp
  with rescale_unguarded_division [of "[0, 0, 0, 0]" round_b64]
  have "rescale round_b64 [0, 0, 0, 0] = Inl FloatDivideByZero" by blast
  with first d show ?thesis by simp
qed

lemma rescale_unit_peak:
  assumes one: "rnd 1 = 1"
    and fixed: "\<forall>y\<in>set ys. rnd y = y"
    and peak: "np_max (map abs ys) = Inr 1"
  shows "rescale rnd ys = Inr ys"
proof -
  have "map (\<lambda>x. rnd (x * 1)) ys = ys"
    using fixed by (simp add: map_idI)
  then show ?thesis
    using peak one by (simp add: rescale_def fdiv_def fmul_def)
qed

lemma rescale_outputs_rounded:
  assumes "rescale rnd xs = Inr ys" and "y \<in> set ys"
  shows "\<exists>z. y = rnd z"
  using assms
  by (auto simp: rescale_def fdiv_def fmul_def np_max_def Let_def split: if_splits sum.splits)

lemma rescale_exact_peak:
  assumes "\<exists>x\<in>set xs. x \<noteq> 0"
  shows "\<exists>zs. rescale id xs = Inr zs \<and> np_max (map abs zs) = Inr 1"
proof -
  from assms have ne: "xs \<noteq> []" by auto
  let ?p = "Max (set (map abs xs))"
  from rescale_nonzero [OF assms, of id]
  have r: "rescale id xs = Inr (map (\<lambda>x. x * (1 / ?p)) xs)" and nz: "?p \<noteq> 0"
    using ne by (auto simp: np_max_def)
  have pin: "?p \<in> set (map abs xs)"
    using ne by (intro Max_in) auto
  then have ppos: "0 < ?p" using nz by auto
  let ?zs = "map (\<lambda>x. x * (1 / ?p)) xs"
  have "Max (set (map abs ?zs)) = 1"
  proof (rule Max_eqI)
    show "finite (set (map abs ?zs))" by simp
    show "y \<le> 1" if "y \<in> set (map abs ?zs)" for y
    proof -
      from that obtain x where x: "x \<in> set xs" and y: "y = \<bar>x * (1 / ?p)\<bar>" by auto
      have "\<bar>x\<bar> \<le> ?p" using x by (intro Max_ge) auto
      then show ?thesis using ppos by (simp add: y abs_mult field_simps)
    qed
    from pin obtain x where x: "x \<in> set xs" and "\<bar>x\<bar> = ?p" by auto
    then have "\<bar>x * (1 / ?p)\<bar> = 1" using ppos by (simp add: abs_mult)
    then show "1 \<in> set (map abs ?zs)" using x by force
  qed
  then have "np_max (map abs ?zs) = Inr 1"
    using ne by (simp add: np_max_def)
  with r show ?thesis by blast
qed

text \<open>
  Claim C9, as amended. Applying the rescale step to its own result changes nothing
  whenever the first application has left the peak at exactly one (for any rounding that
  keeps one and keeps what it has rounded); in exact arithmetic, the rounding being the
  identity, that is so for every signal with a nonzero sample. With the rounding of
  binary64 the peak after one application can stay below one, and the second
  application then changes the signal.
\<close>

theorem rescale_twice:
  "(rnd 1 = 1 \<and> (\<forall>y. rnd (rnd y) = rnd y) \<and> rescale rnd xs = Inr ys \<and> np_max (map abs ys) = Inr 1
      \<longrightarrow> rescale rnd ys = Inr ys) \<and>
   ((\<exists>x\<in>set xs. x \<noteq> 0)
      \<longrightarrow> (\<exists>zs. rescale id xs = Inr zs \<and> np_max (map abs zs) = Inr 1 \<and> rescale id zs = Inr zs))"
proof (intro conjI impI)
  assume a: "rnd 1 = 1 \<and> (\<forall>y. rnd (rnd y) = rnd y) \<and> rescale rnd xs = Inr ys \<and> np_max (map abs ys) = Inr 1"
  then have "\<forall>y\<in>set ys. rnd y = y"
    using rescale_outputs_rounded [of rnd xs ys] by metis
  with a show "rescale rnd ys = Inr ys"
    by (intro rescale_unit_peak) simp_all
next
  assume "\<exists>x\<in>set xs. x \<noteq> 0"
  from rescale_exact_peak [OF this] obtain zs
    where z: "rescale id xs = Inr zs" "np_max (map abs zs) = Inr 1" by blast
  then have "rescale id zs = Inr zs"
    by (intro rescale_unit_peak) simp_all
  with z show "\<exists>zs. rescale id xs = Inr zs \<and> np_max (map abs zs) = Inr 1 \<and> rescale id zs = Inr zs"
    by blast
qed

text \<open>
  The signal \<open>[0, 0.765625, 0]\<close> has a nonzero peak. One application in binary64
  gives the peak \<open>1 - 2\<^sup>-\<^sup>5\<^sup>3\<close>, printed as 0.9999999999999999, and the second
  application gives \<open>1\<close>.
\<close>

theorem rescale_twice_counterexample:
  "rescale round_b64 [0, 49 / 64, 0] = Inr [0, 1 - 1 / 2 ^ 53, 0] \<and>
   rescale round_b64 [0, 1 - 1 / 2 ^ 53, 0] = Inr [0, 1, 0] \<and>
   [0, 1 - 1 / 2 ^ 53, 0] \<noteq> [0, 1, 0 :: real]"
  by (simp add: rescale_def np_max_def fdiv_def fmul_def b64_eval)

theorem rescale_twice_witness:
  "round_b64 1 = 1 \<and>
   rescale round_b64 [0, 1 / 2, - 1 / 4, 0] = Inr [0, 1, - 1 / 2, 0] \<and>
   np_max (map abs [0, 1, - 1 / 2, 0]) = Inr 1 \<and>
   rescale round_b64 [0, 1, - 1 / 2, 0] = Inr [0, 1, - 1 / 2, 0]"
proof -
  have one: "round_b64 1 = 1" by (simp add: b64_eval)
  have first: "rescale round_b64 [0, 1 / 2, - 1 / 4, 0] = Inr [0, 1, - 1 / 2, 0]"
    by (simp add: rescale_def np_max_def fdiv_def fmul_def b64_eval)
  have peak: "np_max (map abs [0, 1, - 1 / 2, 0]) = Inr 1"
    by (simp add: np_max_def)
  have idem: "\<forall>y. round_b64 (round_b64 y) = round_b64 y"
    by (simp add: round_b64_idem)
  from rescale_twice [of round_b64 "[0, 1 / 2, - 1 / 4, 0]" "[0, 1, - 1 / 2, 0]"] one first peak idem
  have "rescale round_b64 [0, 1, - 1 / 2, 0] = Inr [0, 1, - 1 / 2, 0]" by blast
  with one first peak show ?thesis by blast
qed

subsection \<open>Sample codec\<close>

lemma length_bytes_le: "length (bytes_le k v) = k"
  by (induction k arbitrary: v) simp_all

lemma uint_byte_of_int: "uint (word_of_int v :: byte) = v mod 256"
  by (simp add: uint_word_of_int_eq take_bit_eq_mod)

lemma uint_le_bytes_le: "uint_le (bytes_le k v) = v mod 256 ^ k"
proof (induction k arbitrary: v)
  case 0
  show ?case by simp
next
  case (Suc k)
  have "uint_le (bytes_le (Suc k) v) = v mod 256 + 256 * ((v div 256) mod 256 ^ k)"
    by (simp add: Suc.IH uint_byte_of_int)
  also have "\<dots> = v mod (256 * 256 ^ k)"
    using zmod_zmult2_eq [of "256 ^ k" v 256] by simp
  finally show ?case by simp
qed

lemma length_unpack_fields: "length (unpack_fields en cs s) = length cs"
  by (induction cs arbitrary: s) simp_all

lemma signed_wrap:
  assumes "- M \<le> v" and "v < M" and "N = 2 * M"
  shows "(if M \<le> v mod N then v mod N - N else v mod N) = (v::int)"
proof (cases "0 \<le> v")
  case True
  then have "v mod N = v" using assms by (intro mod_pos_pos_trivial) simp_all
  then show ?thesis using assms by simp
next
  case False
  then have "(v + N) mod N = v + N"
    using assms by (intro mod_pos_pos_trivial) simp_all
  then have "v mod N = v + N" by simp
  then show ?thesis using False assms by simp
qed

lemma pack_field_Inr:
  assumes "pack_field en c v = Inr b"
  shows "length b = field_size c" and "unpack_field en b = v"
proof -
  have r: "- (2 ^ (8 * field_size c - 1)) \<le> v" "v < 2 ^ (8 * field_size c - 1)"
    and b: "b = (case en of LittleEndian \<Rightarrow> bytes_le (field_size c) v
                 | BigEndian \<Rightarrow> rev (bytes_le (field_size c) v))"
    using assms by (auto simp: pack_field_def Let_def split: if_splits)
  show len: "length b = field_size c"
    by (cases en) (simp_all add: b length_bytes_le)
  have u: "uint_le (case en of LittleEndian \<Rightarrow> b | BigEndian \<Rightarrow> rev b) = v mod 256 ^ field_size c"
    by (cases en) (simp_all add: b uint_le_bytes_le)
  show "unpack_field en b = v"
  proof (cases c)
    case Fmt_h
    with r have "- 32768 \<le> v" "v < 32768" by simp_all
    then have "(if 32768 \<le> v mod 65536 then v mod 65536 - 65536 else v mod 65536) = v"
      by (intro signed_wrap) simp_all
    moreover have "unpack_field en b =
        (if 32768 \<le> v mod 65536 then v mod 65536 - 65536 else v mod 65536)"
      using u len Fmt_h by (simp add: unpack_field_def Let_def)
    ultimately show ?thesis by (simp only:)
  next
    case Fmt_i
    with r have "- 2147483648 \<le> v" "v < 2147483648" by simp_all
    then have "(if 2147483648 \<le> v mod 4294967296 then v mod 4294967296 - 4294967296 else v mod 4294967296) = v"
      by (intro signed_wrap) simp_all
    moreover have "unpack_field en b =
        (if 2147483648 \<le> v mod 4294967296 then v mod 4294967296 - 4294967296 else v mod 4294967296)"
      using u len Fmt_i by (simp add: unpack_field_def Let_def)
    ultimately show ?thesis by (simp only:)
  qed
qed

lemma pack_field_in_range:
  assumes "- (2 ^ (8 * field_size c - 1)) \<le> v" and "v < 2 ^ (8 * field_size c - 1)"
  shows "\<exists>b. pack_field en c v = Inr b"
  using assms by (simp add: pack_field_def Let_def)

lemma pack_field_out_of_range:
  assumes "v < - (2 ^ (8 * field_size c - 1)) \<or> 2 ^ (8 * field_size c - 1) \<le> v"
  shows "pack_field en c v = Inl StructError"
  using assms by (auto simp: pack_field_def Let_def)

lemma serialize_loop_Inr:
  assumes "\<forall>v\<in>set a. - (2 ^ (8 * field_size c - 1)) \<le> v \<and> v < 2 ^ (8 * field_size c - 1)"
  shows "\<exists>b. serialize_loop (en, [c]) s a = Inr (s @ b) \<and>
             length b = field_size c * length a \<and>
             unpack_fields en (replicate (length a) c) b = a"
  using assms
proof (induction a arbitrary: s)
  case Nil
  show ?case by simp
next
  case (Cons v a)
  from Cons.prems obtain b1 where b1: "pack_field en c v = Inr b1"
    using pack_field_in_range [of c v en] by auto
  note p = pack_field_Inr [OF b1]
  from Cons.IH [of "s @ b1"] Cons.prems obtain b2
    where b2: "serialize_loop (en, [c]) (s @ b1) a = Inr ((s @ b1) @ b2)"
      and l2: "length b2 = field_size c * length a"
      and u2: "unpack_fields en (replicate (length a) c) b2 = a"
    by auto
  have "serialize_loop (en, [c]) s (v # a) = Inr (s @ (b1 @ b2))"
    using b1 b2 by (simp add: struct_pack_def)
  moreover have "length (b1 @ b2) = field_size c * length (v # a)"
    using p(1) l2 by simp
  moreover have "unpack_fields en (replicate (length (v # a)) c) (b1 @ b2) = v # a"
    using p u2 by simp
  ultimately show ?case by blast
qed

lemma calcsize_replicate: "calcsize (en, replicate n c) = n * field_size c"
  by (simp add: calcsize_def sum_list_replicate)

lemma serialize_deserialize:
  assumes "\<forall>v\<in>set a. - (2 ^ (8 * (if lr then 2 else 4) - 1)) \<le> v \<and> v < 2 ^ (8 * (if lr then 2 else 4) - 1)"
  shows "\<exists>s. serialize (Audio lr) a = Inr s \<and>
             length s = (if lr then 2 else 4) * length a \<and>
             deserialize (Audio lr) s = Inr a"
proof (cases lr)
  case True
  with assms have "\<forall>v\<in>set a. - (2 ^ (8 * field_size Fmt_h - 1)) \<le> v \<and> v < 2 ^ (8 * field_size Fmt_h - 1)"
    by simp
  from serialize_loop_Inr [OF this, of LittleEndian "[]"] obtain b
    where b: "serialize_loop (LittleEndian, [Fmt_h]) [] a = Inr b"
      and l: "length b = 2 * length a"
      and u: "unpack_fields LittleEndian (replicate (length a) Fmt_h) b = a"
    by auto
  have "serialize (Audio True) a = Inr b"
    using b by (simp add: serialize_def Audio_def)
  moreover have "deserialize (Audio True) b = Inr a"
    using l u by (simp add: deserialize_def Audio_def struct_unpack_def calcsize_replicate)
  ultimately show ?thesis using True l by auto
next
  case False
  with assms have "\<forall>v\<in>set a. - (2 ^ (8 * field_size Fmt_i - 1)) \<le> v \<and> v < 2 ^ (8 * field_size Fmt_i - 1)"
    by simp
  from serialize_loop_Inr [OF this, of BigEndian "[]"] obtain b
    where b: "serialize_loop (BigEndian, [Fmt_i]) [] a = Inr b"
      and l: "length b = 4 * length a"
      and u: "unpack_fields BigEndian (replicate (length a) Fmt_i) b = a"
    by auto
  have "serialize (Audio False) a = Inr b"
    using b by (simp add: serialize_def Audio_def)
  moreover have "deserialize (Audio False) b = Inr a"
    using l u by (simp add: deserialize_def Audio_def struct_unpack_def calcsize_replicate)
  ultimately show ?thesis using False l by auto
qed

text \<open>
  Claim C4. A list of integers that all lie between \<open>-full_scale\<close> and \<open>full_scale\<close>
  is packed without error and unpacked to the same list, for 16-bit little-endian samples
  with full scale \<open>0x7fff\<close> (\<open>low_res\<close> set) and for 32-bit big-endian samples with full
  scale \<open>0x7fffffff\<close>. The one-element list \<open>[v]\<close> is an instance.
\<close>

theorem codec_round_trip:
  "((\<forall>v\<in>set a. - 0x7fff \<le> v \<and> v \<le> 0x7fff) \<longrightarrow>
      (\<exists>s. serialize (Audio True) a = Inr s \<and> deserialize (Audio True) s = Inr a)) \<and>
   ((\<forall>v\<in>set a. - 0x7fffffff \<le> v \<and> v \<le> 0x7fffffff) \<longrightarrow>
      (\<exists>s. serialize (Audio False) a = Inr s \<and> deserialize (Audio False) s = Inr a))"
proof (intro conjI impI)
  assume "\<forall>v\<in>set a. - 0x7fff \<le> v \<and> v \<le> 0x7fff"
  then have "\<forall>v\<in>set a. - (2 ^ (8 * (if True then 2 else 4) - 1)) \<le> v \<and> v < 2 ^ (8 * (if True then 2 else 4) - 1)"
    by auto
  from serialize_deserialize [OF this]
  show "\<exists>s. serialize (Audio True) a = Inr s \<and> deserialize (Audio True) s = Inr a" by blast
next
  assume "\<forall>v\<in>set a. - 0x7fffffff \<le> v \<and> v \<le> 0x7fffffff"
  then have "\<forall>v\<in>set a. - (2 ^ (8 * (if False then 2 else 4) - 1)) \<le> v \<and> v < 2 ^ (8 * (if False then 2 else 4) - 1)"
    by auto
  from serialize_deserialize [OF this]
  show "\<exists>s. serialize (Audio False) a = Inr s \<and> deserialize (Audio False) s = Inr a" by blast
qed

lemma bytes_le_2: "bytes_le 2 v = [word_of_int v, word_of_int (v div 256)]"
  by (simp add: eval_nat_numeral)

lemma bytes_le_4: "bytes_le 4 v = [word_of_int v, word_of_int (v div 256),
     word_of_int (v div 256 div 256), word_of_int (v div 256 div 256 div 256)]"
  by (simp add: eval_nat_numeral)

lemma ser16: "serialize (Audio True) [- 32767, 513] = Inr [1, 128, 1, 2]"
  by (simp add: serialize_def Audio_def struct_pack_def pack_field_def bytes_le_2)

lemma ser32: "serialize (Audio False) [- 2147483647, 66051] = Inr [128, 0, 0, 1, 0, 1, 2, 3]"
  by (simp add: serialize_def Audio_def struct_pack_def pack_field_def bytes_le_4)


theorem codec_round_trip_witness:
  "serialize (Audio True) [- 32767, 513] = Inr [1, 128, 1, 2] \<and>
   deserialize (Audio True) [1, 128, 1, 2] = Inr [- 32767, 513] \<and>
   serialize (Audio False) [- 2147483647, 66051] = Inr [128, 0, 0, 1, 0, 1, 2, 3] \<and>
   deserialize (Audio False) [128, 0, 0, 1, 0, 1, 2, 3] = Inr [- 2147483647, 66051]"
proof -
  have "\<forall>v\<in>set [- 32767, 513 :: int]. - 0x7fff \<le> v \<and> v \<le> 0x7fff" by simp
  with codec_round_trip [of "[- 32767, 513]"] obtain s
    where "serialize (Audio True) [- 32767, 513] = Inr s"
      and "deserialize (Audio True) s = Inr [- 32767, 513]"
    by blast
  then have a: "deserialize (Audio True) [1, 128, 1, 2] = Inr [- 32767, 513]"
    by (simp add: ser16)
  have "\<forall>v\<in>set [- 2147483647, 66051 :: int]. - 0x7fffffff \<le> v \<and> v \<le> 0x7fffffff" by simp
  with codec_round_trip [of "[- 2147483647, 66051]"] obtain t
    where "serialize (Audio False) [- 2147483647, 66051] = Inr t"
      and "deserialize (Audio False) t = Inr [- 2147483647, 66051]"
    by blast
  then have b: "deserialize (Audio False) [128, 0, 0, 1, 0, 1, 2, 3] = Inr [- 2147483647, 66051]"
    by (simp add: ser32)
  from a b ser16 ser32 show ?thesis by blast
qed

lemma deserialize_cases:
  "deserialize (Audio lr) s =
     (if length s mod (if lr then 2 else 4) \<noteq> 0 then Inl StructError
      else Inr (unpack_fields (if lr then LittleEndian else BigEndian)
                  (replicate (length s div (if lr then 2 else 4)) (if lr then Fmt_h else Fmt_i)) s))"
proof -
  have "length s \<noteq> length s div w * w \<longleftrightarrow> length s mod w \<noteq> 0" for w :: nat
    by (metis mod_eq_0_iff_dvd dvd_div_mult_self dvd_triv_right)
  then show ?thesis
    by (simp add: deserialize_def Audio_def struct_unpack_def calcsize_replicate)
qed

text \<open>
  Claim C7, as amended. A byte string whose length is not a multiple of the sample width
  is not truncated: \<open>struct.unpack\<close> is given a format for \<open>len(s) // width\<close> samples
  and a string that is longer than that format, and raises \<open>struct.error\<close>. A string
  whose length is a multiple of the width gives exactly \<open>len(s) / width\<close> samples.
\<close>

theorem deserialize_partial_input:
  "(length s mod 2 \<noteq> 0 \<longrightarrow> deserialize (Audio True) s = Inl StructError) \<and>
   (length s mod 2 = 0 \<longrightarrow>
      (\<exists>xs. deserialize (Audio True) s = Inr xs \<and> length xs = length s div 2)) \<and>
   (length s mod 4 \<noteq> 0 \<longrightarrow> deserialize (Audio False) s = Inl StructError) \<and>
   (length s mod 4 = 0 \<longrightarrow>
      (\<exists>xs. deserialize (Audio False) s = Inr xs \<and> length xs = length s div 4))"
proof -
  have low: "deserialize (Audio True) s =
      (if length s mod 2 \<noteq> 0 then Inl StructError
       else Inr (unpack_fields LittleEndian (replicate (length s div 2) Fmt_h) s))"
    using deserialize_cases [of True s] by simp
  have high: "deserialize (Audio False) s =
      (if length s mod 4 \<noteq> 0 then Inl StructError
       else Inr (unpack_fields BigEndian (replicate (length s div 4) Fmt_i) s))"
    using deserialize_cases [of False s] by simp
  show ?thesis
    unfolding low high by (simp add: length_unpack_fields)
qed

text \<open>
  Three bytes with 16-bit samples: the result is the error, not the one sample that the
  first two bytes hold.
\<close>

theorem deserialize_partial_input_counterexample:
  "length [1, 2, 3 :: byte] mod 2 \<noteq> 0 \<and>
   deserialize (Audio True) [1, 2, 3] = Inl StructError \<and>
   deserialize (Audio True) (take 2 [1, 2, 3]) = Inr [513]"
  by (simp add: deserialize_cases unpack_field_def)

theorem deserialize_partial_input_witness:
  "length [1, 2, 3 :: byte] mod 2 \<noteq> 0 \<and> deserialize (Audio True) [1, 2, 3] = Inl StructError \<and>
   length [1, 2, 3 :: byte] mod 4 \<noteq> 0 \<and> deserialize (Audio False) [1, 2, 3] = Inl StructError \<and>
   length [1, 2 :: byte] mod 2 = 0 \<and> deserialize (Audio True) [1, 2] = Inr [513] \<and>
   length [0, 0, 2, 1 :: byte] mod 4 = 0 \<and> deserialize (Audio False) [0, 0, 2, 1] = Inr [513]"
  using deserialize_partial_input [of "[1, 2, 3]"] deserialize_partial_input [of "[1, 2]"]
    deserialize_partial_input [of "[0, 0, 2, 1]"]
  by (simp add: deserialize_cases unpack_field_def)

subsection \<open>Denormalisation\<close>

lemma astype_int64_bounds:
  assumes "- real_of_int n \<le> r" and "r \<le> real_of_int n"
  shows "\<bar>astype_int64 r\<bar> \<le> n"
proof (cases "0 \<le> r")
  case True
  then have "astype_int64 r = \<lfloor>r\<rfloor>" by (simp add: astype_int64_def)
  moreover have "\<lfloor>r\<rfloor> \<le> n" using assms(2) by (simp add: floor_le_iff)
  moreover have "0 \<le> \<lfloor>r\<rfloor>" using True by simp
  ultimately show ?thesis by simp
next
  case False
  then have "astype_int64 r = \<lceil>r\<rceil>" by (simp add: astype_int64_def)
  moreover have "- n \<le> \<lceil>r\<rceil>" using assms(1) by (simp add: le_ceiling_iff)
  moreover have "\<lceil>r\<rceil> \<le> 0" using False by (simp add: ceiling_le_iff)
  ultimately show ?thesis by simp
qed

lemma np_clip_bounds: "- 1 \<le> np_clip x (- 1) 1" "np_clip x (- 1) 1 \<le> 1"
  by (simp_all add: np_clip_def)

lemma denormalize_eq:
  "denormalize rnd data max_val =
     map (\<lambda>x. astype_int64 (rnd (rnd (1 * rnd (of_int max_val)) * np_clip x (- 1) 1))) data"
  by (simp add: denormalize_def fmul_def Let_def comp_def)

lemma denormalize_bound:
  assumes m: "mono rnd"
    and p: "rnd (of_int fs) = of_int fs"
    and n: "rnd (- of_int fs) = - of_int fs"
    and y: "y \<in> set (denormalize rnd data fs)"
  shows "\<bar>y\<bar> \<le> \<bar>fs\<bar>"
proof -
  from y obtain x where yx: "y = astype_int64 (rnd (of_int fs * np_clip x (- 1) 1))"
    by (auto simp: denormalize_eq p)
  let ?c = "np_clip x (- 1) 1"
  let ?F = "real_of_int fs"
  have "\<bar>?c\<bar> \<le> 1" using np_clip_bounds [of x] by simp
  then have "\<bar>?F * ?c\<bar> \<le> \<bar>?F\<bar> * 1"
    unfolding abs_mult by (intro mult_left_mono) simp_all
  then have b: "- \<bar>?F\<bar> \<le> ?F * ?c" "?F * ?c \<le> \<bar>?F\<bar>" by simp_all
  have fixp: "rnd \<bar>?F\<bar> = \<bar>?F\<bar>" and fixn: "rnd (- \<bar>?F\<bar>) = - \<bar>?F\<bar>"
    using p n by (simp_all add: abs_if)
  have "rnd (- \<bar>?F\<bar>) \<le> rnd (?F * ?c)" using m b(1) by (rule monoD)
  moreover have "rnd (?F * ?c) \<le> rnd \<bar>?F\<bar>" using m b(2) by (rule monoD)
  ultimately have "- real_of_int \<bar>fs\<bar> \<le> rnd (?F * ?c)" "rnd (?F * ?c) \<le> real_of_int \<bar>fs\<bar>"
    using fixp fixn by simp_all
  then have "\<bar>astype_int64 (rnd (?F * ?c))\<bar> \<le> \<bar>fs\<bar>"
    by (rule astype_int64_bounds)
  then show ?thesis by (simp add: yx)
qed














subsection \<open>The linear congruential generator\<close>

lemma spec_state_range: "0 \<le> spec_state seed i" "spec_state seed i < 2 ^ 31 - 1"
  by (cases i; simp)+

lemma LCG_fields:
  "lcg_a (LCG seed) = 7 ^ 5" "lcg_b (LCG seed) = 0" "lcg_c (LCG seed) = 2 ^ 31 - 1"
  "lcg_state (LCG seed) = spec_state seed 0"
  by (simp_all add: LCG_def Let_def)

lemma lcg_next_spec:
  assumes "lcg_a g = 7 ^ 5" and "lcg_b g = 0" and "lcg_c g = 2 ^ 31 - 1"
    and "lcg_state g = spec_state seed i"
  shows "lcg_next g = Inr (spec_state seed (Suc i), g\<lparr>lcg_state := spec_state seed (Suc i)\<rparr>)"
  using assms by (simp add: lcg_next_def Let_def)

lemma islice_spec:
  assumes "lcg_a g = 7 ^ 5" and "lcg_b g = 0" and "lcg_c g = 2 ^ 31 - 1"
    and "lcg_state g = spec_state seed i"
  shows "islice g k =
     Inr (map (\<lambda>j. spec_state seed (Suc (i + j))) [0 ..< k], g\<lparr>lcg_state := spec_state seed (i + k)\<rparr>)"
  using assms
proof (induction k arbitrary: g i)
  case 0
  then show ?case by simp
next
  case (Suc k)
  let ?g = "g\<lparr>lcg_state := spec_state seed (Suc i)\<rparr>"
  have n: "lcg_next g = Inr (spec_state seed (Suc i), ?g)"
    using Suc.prems by (rule lcg_next_spec)
  have "islice ?g k =
     Inr (map (\<lambda>j. spec_state seed (Suc (Suc i + j))) [0 ..< k],
          ?g\<lparr>lcg_state := spec_state seed (Suc i + k)\<rparr>)"
    using Suc.prems by (intro Suc.IH) simp_all
  then have "islice g (Suc k) =
     Inr (spec_state seed (Suc i) # map (\<lambda>j. spec_state seed (Suc (Suc i + j))) [0 ..< k],
          g\<lparr>lcg_state := spec_state seed (i + Suc k)\<rparr>)"
    using n by simp
  moreover have "map (\<lambda>j. spec_state seed (Suc (i + j))) [0 ..< Suc k] =
      spec_state seed (Suc i) # map (\<lambda>j. spec_state seed (Suc (Suc i + j))) [0 ..< k]"
    by (simp add: upt_conv_Cons map_Suc_upt [symmetric] del: upt_Suc)
  ultimately show ?case by simp
qed

lemma draw_uniform_spec:
  assumes "0 \<le> n"
  shows "draw_uniform rnd (LCG seed) n =
     Inr (map (\<lambda>j. rnd (of_int (spec_state seed (Suc j)) / (2 ^ 31 - 1))) [0 ..< nat n],
          (LCG seed)\<lparr>lcg_state := spec_state seed (nat n)\<rparr>)"
proof -
  have "islice (LCG seed) (nat n) =
     Inr (map (\<lambda>j. spec_state seed (Suc (0 + j))) [0 ..< nat n],
          (LCG seed)\<lparr>lcg_state := spec_state seed (0 + nat n)\<rparr>)"
    by (intro islice_spec) (simp_all add: LCG_fields)
  then show ?thesis
    using assms by (simp add: draw_uniform_def LCG_fields(3) comp_def)
qed

lemma unit_interval:
  fixes rnd :: rounding
  assumes m: "mono rnd" and z: "rnd 0 = 0" and b: "rnd (1 - 1 / (2 ^ 31 - 1)) < 1"
  shows "0 \<le> rnd (of_int (spec_state seed i) / (2 ^ 31 - 1))"
    and "rnd (of_int (spec_state seed i) / (2 ^ 31 - 1)) < 1"
proof -
  let ?s = "spec_state seed i"
  let ?x = "real_of_int ?s / (2 ^ 31 - 1)"
  have s0: "0 \<le> real_of_int ?s" using spec_state_range(1) [of seed i] by simp
  have "?s \<le> 2 ^ 31 - 2" using spec_state_range(2) [of seed i] by simp
  then have "real_of_int ?s \<le> real_of_int (2 ^ 31 - 2)" by (simp only: of_int_le_iff)
  then have s1: "real_of_int ?s \<le> 2 ^ 31 - 2" by simp
  have "0 \<le> ?x" using s0 by simp
  then have "rnd 0 \<le> rnd ?x" using m by (simp add: monoD)
  then show "0 \<le> rnd ?x" using z by simp
  have "?x \<le> (2 ^ 31 - 2) / (2 ^ 31 - 1)"
    using s1 by (intro divide_right_mono) simp_all
  also have "\<dots> = 1 - 1 / (2 ^ 31 - 1)" by simp
  finally have "rnd ?x \<le> rnd (1 - 1 / (2 ^ 31 - 1))" using m by (simp add: monoD)
  then show "rnd ?x < 1" using b by simp
qed

lemma b64_below_one: "round_b64 (1 - 1 / (2 ^ 31 - 1)) < 1"
  by (simp add: b64_eval)

text \<open>
  Claim C6. For every seed and every \<open>n \<ge> 0\<close>, \<open>draw_uniform\<close> on a fresh generator
  returns exactly \<open>n\<close> values; the \<open>i\<close>-th of them, counted from one, is
  \<open>state\<^sub>i\<close> divided by \<open>c = 2^31 - 1\<close>, where the states are those of the
  specification, and the generator is left in \<open>state\<^sub>n\<close>. The result is a function of
  the seed and of \<open>n\<close> alone, hence the same on every run. Every state lies in
  \<open>[0, c - 1]\<close>, so every value lies in \<open>[0, 1)\<close> for any monotone rounding of the
  quotient that keeps zero and does not round \<open>(c - 1) / c\<close> up to one, and the
  rounding of binary64 is one.
\<close>

theorem draw_uniform_lcg:
  "0 \<le> n \<longrightarrow>
     (\<exists>vals g'. draw_uniform rnd (LCG seed) n = Inr (vals, g') \<and>
        length vals = nat n \<and>
        (\<forall>i < nat n. vals ! i = rnd (of_int (spec_state seed (Suc i)) / (2 ^ 31 - 1))) \<and>
        lcg_state g' = spec_state seed (nat n) \<and>
        (mono rnd \<and> rnd 0 = 0 \<and> rnd (1 - 1 / (2 ^ 31 - 1)) < 1
           \<longrightarrow> (\<forall>v\<in>set vals. 0 \<le> v \<and> v < 1))) \<and>
     (\<exists>vals g'. draw_uniform round_b64 (LCG seed) n = Inr (vals, g') \<and>
        (\<forall>v\<in>set vals. 0 \<le> v \<and> v < 1))"
proof
  assume n: "0 \<le> n"
  let ?vals = "\<lambda>r :: rounding. map (\<lambda>j. r (of_int (spec_state seed (Suc j)) / (2 ^ 31 - 1))) [0 ..< nat n]"
  let ?g = "(LCG seed)\<lparr>lcg_state := spec_state seed (nat n)\<rparr>"
  have d: "draw_uniform r (LCG seed) n = Inr (?vals r, ?g)" for r
    using n by (rule draw_uniform_spec)
  have u: "\<forall>v\<in>set (?vals r). 0 \<le> v \<and> v < 1"
    if "mono r" "r 0 = 0" "r (1 - 1 / (2 ^ 31 - 1)) < 1" for r
    using unit_interval [OF that] by (auto simp del: spec_state.simps)
  have "length (?vals rnd) = nat n" by simp
  moreover have "\<forall>i < nat n. ?vals rnd ! i = rnd (of_int (spec_state seed (Suc i)) / (2 ^ 31 - 1))"
    by simp
  moreover have "lcg_state ?g = spec_state seed (nat n)" by simp
  ultimately have A: "\<exists>vals g'. draw_uniform rnd (LCG seed) n = Inr (vals, g') \<and>
        length vals = nat n \<and>
        (\<forall>i < nat n. vals ! i = rnd (of_int (spec_state seed (Suc i)) / (2 ^ 31 - 1))) \<and>
        lcg_state g' = spec_state seed (nat n) \<and>
        (mono rnd \<and> rnd 0 = 0 \<and> rnd (1 - 1 / (2 ^ 31 - 1)) < 1
           \<longrightarrow> (\<forall>v\<in>set vals. 0 \<le> v \<and> v < 1))"
    using d [of rnd] u [of rnd] by blast
  have "\<forall>v\<in>set (?vals round_b64). 0 \<le> v \<and> v < 1"
    using round_b64_mono round_b64_zero b64_below_one by (rule u)
  then have B: "\<exists>vals g'. draw_uniform round_b64 (LCG seed) n = Inr (vals, g') \<and>
        (\<forall>v\<in>set vals. 0 \<le> v \<and> v < 1)"
    using d [of round_b64] by blast
  from A B show "(\<exists>vals g'. draw_uniform rnd (LCG seed) n = Inr (vals, g') \<and>
        length vals = nat n \<and>
        (\<forall>i < nat n. vals ! i = rnd (of_int (spec_state seed (Suc i)) / (2 ^ 31 - 1))) \<and>
        lcg_state g' = spec_state seed (nat n) \<and>
        (mono rnd \<and> rnd 0 = 0 \<and> rnd (1 - 1 / (2 ^ 31 - 1)) < 1
           \<longrightarrow> (\<forall>v\<in>set vals. 0 \<le> v \<and> v < 1))) \<and>
     (\<exists>vals g'. draw_uniform round_b64 (LCG seed) n = Inr (vals, g') \<and>
        (\<forall>v\<in>set vals. 0 \<le> v \<and> v < 1))" ..
qed


lemma spec_state_1337:
  "spec_state 1337 (Suc 0) = 2000443529"
  "spec_state 1337 (Suc (Suc 0)) = 450414471"
  "spec_state 1337 2 = 450414471"
proof -
  show a: "spec_state 1337 (Suc 0) = 2000443529" by simp
  show b: "spec_state 1337 (Suc (Suc 0)) = 450414471" by simp
  have "spec_state 1337 2 = spec_state 1337 (Suc (Suc 0))" by (simp only: numeral_2_eq_2)
  with b show "spec_state 1337 2 = 450414471" by (simp only:)
qed

lemma draw_1337:
  "draw_uniform round_b64 (LCG 1337) 2 =
     Inr ([2097617074841483 / 2251799813685248, 7556700873011599 / 36028797018963968],
          \<lparr>lcg_a = 16807, lcg_b = 0, lcg_c = 2147483647, lcg_state = 450414471\<rparr>)"
proof -
  have "[0 ..< nat 2] = [0, Suc 0]" by (simp add: upt_rec eval_nat_numeral)
  moreover have "nat 2 = Suc (Suc 0)" by simp
  moreover have "round_b64 (2000443529 / 2147483647) = 2097617074841483 / 2251799813685248"
    by (simp add: b64_eval)
  moreover have "round_b64 (450414471 / 2147483647) = 7556700873011599 / 36028797018963968"
    by (simp add: b64_eval)
  ultimately show ?thesis
    using draw_uniform_spec [of 2 round_b64 1337]
    by (simp add: LCG_def del: spec_state.simps add: spec_state_1337)
qed

theorem draw_uniform_lcg_witness:
  "(0::int) \<le> 2 \<and> round_b64 0 = 0 \<and> round_b64 (1 - 1 / (2 ^ 31 - 1)) < 1 \<and>
   draw_uniform round_b64 (LCG 1337) 2 =
     Inr ([2097617074841483 / 2251799813685248, 7556700873011599 / 36028797018963968],
          \<lparr>lcg_a = 16807, lcg_b = 0, lcg_c = 2147483647, lcg_state = 450414471\<rparr>) \<and>
   (0::real) \<le> 2097617074841483 / 2251799813685248 \<and>
   (2097617074841483 / 2251799813685248 :: real) < 1"
proof -
  have n: "(0::int) \<le> 2" by simp
  from draw_uniform_lcg [of 2 round_b64 1337] n obtain vals g'
    where d: "draw_uniform round_b64 (LCG 1337) 2 = Inr (vals, g')"
      and r: "mono round_b64 \<and> round_b64 0 = 0 \<and> round_b64 (1 - 1 / (2 ^ 31 - 1)) < 1
           \<longrightarrow> (\<forall>v\<in>set vals. 0 \<le> v \<and> v < 1)"
    by blast
  from d have v: "vals = [2097617074841483 / 2251799813685248, 7556700873011599 / 36028797018963968]"
    by (simp add: draw_1337)
  from r round_b64_mono round_b64_zero b64_below_one
  have "\<forall>v\<in>set vals. 0 \<le> v \<and> v < 1" by blast
  then have "(0::real) \<le> 2097617074841483 / 2251799813685248 \<and>
      (2097617074841483 / 2251799813685248 :: real) < 1"
    unfolding v by (simp only: list.set ball_simps insert_iff)
  with n round_b64_zero b64_below_one draw_1337 show ?thesis by blast
qed

subsection \<open>Waveform assembly and replay\<close>

lemma rate_num: "rate = 96000" "num = 1920" "rate = 50 * num" "0 < num"
  by (simp_all add: rate_def num_def)

lemma length_denormalize: "length (denormalize rnd data fs) = length data"
  by (simp add: denormalize_eq)

lemma build_ndata_eq:
  "\<exists>noise g. draw_uniform rnd (LCG 1337) (int rate) = Inr (noise, g) \<and>
     length noise = rate \<and>
     (\<forall>i < rate. noise ! i = rnd (of_int (spec_state 1337 (Suc i)) / (2 ^ 31 - 1))) \<and>
     build_ndata rnd =
       Inr (replicate rate 0 @ noise @ replicate rate 0 @ replicate rate 1 @
            replicate rate 0 @ replicate rate (- 1) @ replicate rate 0 @
            replicate rate 1 @ replicate rate (- 1) @ replicate rate 0)"
proof -
  let ?noise = "map (\<lambda>j. rnd (of_int (spec_state 1337 (Suc j)) / (2 ^ 31 - 1))) [0 ..< rate]"
  let ?g = "(LCG 1337)\<lparr>lcg_state := spec_state 1337 rate\<rparr>"
  have d: "draw_uniform rnd (LCG 1337) (int rate) = Inr (?noise, ?g)"
    using draw_uniform_spec [of "int rate" rnd 1337] by simp
  have "build_ndata rnd =
       Inr (replicate rate 0 @ ?noise @ replicate rate 0 @ replicate rate 1 @
            replicate rate 0 @ replicate rate (- 1) @ replicate rate 0 @
            replicate rate 1 @ replicate rate (- 1) @ replicate rate 0)"
    unfolding build_ndata_def Let_def d by simp
  moreover have "length ?noise = rate" by simp
  moreover have "\<forall>i < rate. ?noise ! i = rnd (of_int (spec_state 1337 (Suc i)) / (2 ^ 31 - 1))"
    by simp
  ultimately show ?thesis using d by blast
qed

lemma write_block:
  assumes m: "mono rnd"
    and p: "rnd (of_int 0x7fffffff) = of_int 0x7fffffff"
    and n: "rnd (- of_int 0x7fffffff) = - of_int 0x7fffffff"
  shows "\<exists>s. serialize (Audio False) (denormalize rnd ldata 0x7fffffff) = Inr s \<and>
             length s = 4 * length ldata \<and>
             deserialize (Audio False) s = Inr (denormalize rnd ldata 0x7fffffff)"
proof -
  have "\<forall>v\<in>set (denormalize rnd ldata 0x7fffffff).
      - (2 ^ (8 * (if False then 2 else 4) - 1)) \<le> v \<and> v < 2 ^ (8 * (if False then 2 else 4) - 1)"
  proof
    fix v assume "v \<in> set (denormalize rnd ldata 0x7fffffff)"
    with m p n have "\<bar>v\<bar> \<le> \<bar>0x7fffffff\<bar>" by (rule denormalize_bound)
    then have "- 2147483647 \<le> v" "v \<le> 2147483647" by linarith+
    then show "- (2 ^ (8 * (if False then 2 else 4) - 1)) \<le> v \<and> v < 2 ^ (8 * (if False then 2 else 4) - 1)"
      by simp
  qed
  from serialize_deserialize [OF this] show ?thesis
    by (simp add: length_denormalize)
qed

lemma write_chunks_blocks:
  assumes m: "mono rnd"
    and p: "rnd (of_int 0x7fffffff) = of_int 0x7fffffff"
    and n: "rnd (- of_int 0x7fffffff) = - of_int 0x7fffffff"
    and len: "length rdata = k * num"
  shows "\<exists>blocks. (\<forall>outp. write_chunks rnd (Audio False) rdata outp = Inr (outp @ blocks)) \<and>
           length blocks = k \<and>
           (\<forall>i < k. serialize (Audio False) (denormalize rnd (take num (drop (i * num) rdata)) 0x7fffffff)
                      = Inr (blocks ! i) \<and>
                    length (blocks ! i) = 4 * num)"
  using len
proof (induction k arbitrary: rdata)
  case 0
  then have "write_chunks rnd (Audio False) rdata outp = Inr (outp @ [])" for outp
    by (subst write_chunks.simps) simp
  then show ?case by (intro exI [of _ "[]"]) simp
next
  case (Suc k)
  let ?fs = "0x7fffffff :: int"
  have l: "num \<le> length rdata" "0 < length rdata"
    using Suc.prems rate_num(4) by simp_all
  from write_block [OF m p n, of "take num rdata"] obtain s
    where s: "serialize (Audio False) (denormalize rnd (take num rdata) ?fs) = Inr s"
      and ls: "length s = 4 * num"
    using l by auto
  have "length (drop num rdata) = k * num" using Suc.prems by simp
  from Suc.IH [OF this] obtain blocks
    where w: "\<forall>outp. write_chunks rnd (Audio False) (drop num rdata) outp = Inr (outp @ blocks)"
      and lb: "length blocks = k"
      and b: "\<forall>i < k. serialize (Audio False)
                  (denormalize rnd (take num (drop (i * num) (drop num rdata))) ?fs) = Inr (blocks ! i) \<and>
                length (blocks ! i) = 4 * num"
    by blast
  have "write_chunks rnd (Audio False) rdata outp = Inr (outp @ (s # blocks))" for outp
    using l s w by (subst write_chunks.simps) simp
  moreover have "length (s # blocks) = Suc k" using lb by simp
  moreover have "serialize (Audio False) (denormalize rnd (take num (drop (i * num) rdata)) ?fs)
        = Inr ((s # blocks) ! i) \<and> length ((s # blocks) ! i) = 4 * num"
    if "i < Suc k" for i
  proof (cases i)
    case 0
    then show ?thesis using s ls by simp
  next
    case (Suc j)
    then have "j < k" using that by simp
    moreover have "drop (i * num) rdata = drop (j * num) (drop num rdata)"
      using Suc by (simp add: add.commute)
    ultimately show ?thesis using b Suc by simp
  qed
  ultimately show ?case by blast
qed

lemma play_blocks:
  assumes "\<forall>outp. write_chunks rnd au ndata outp = Inr (outp @ blocks)"
  shows "play rnd au ndata k outp = Inr (outp @ concat (replicate k blocks))"
  using assms by (induction k arbitrary: outp) simp_all


lemma length_ndata:
  assumes "length noise = rate"
  shows "length (replicate rate (0::real) @ noise @ replicate rate 0 @ replicate rate 1 @
            replicate rate 0 @ replicate rate (- 1) @ replicate rate 0 @
            replicate rate 1 @ replicate rate (- 1) @ replicate rate 0) = 10 * rate"
  using assms by simp

text \<open>
  Claim C8. The generator builds one waveform of \<open>10 * rate\<close> samples, \<open>rate\<close> being
  96000: silence, the \<open>rate\<close> values drawn from the generator seeded with 1337,
  silence, plus one, silence, minus one, silence, plus one, minus one, silence, each for
  \<open>rate\<close> samples. Every round of the endless loop cuts the same waveform into 500
  chunks of exactly \<open>num = rate div 50\<close> samples and writes the encoding of each, four
  bytes a sample; after \<open>k\<close> rounds the device has received the same 500 blocks
  \<open>k\<close> times. The blocks are written when the full scale \<open>0x7fffffff\<close> survives the
  float rounding, as it does in binary64.
\<close>

theorem signal_gen_waveform:
  "\<exists>noise g ndata.
     rate = 96000 \<and> num = rate div 50 \<and>
     draw_uniform rnd (LCG 1337) (int rate) = Inr (noise, g) \<and> length noise = rate \<and>
     build_ndata rnd = Inr ndata \<and>
     ndata = replicate rate 0 @ noise @ replicate rate 0 @ replicate rate 1 @
             replicate rate 0 @ replicate rate (- 1) @ replicate rate 0 @
             replicate rate 1 @ replicate rate (- 1) @ replicate rate 0 \<and>
     length ndata = 10 * rate \<and>
     (mono rnd \<and> rnd (of_int 0x7fffffff) = of_int 0x7fffffff \<and>
      rnd (- of_int 0x7fffffff) = - of_int 0x7fffffff \<longrightarrow>
        (\<exists>blocks. length blocks = 500 \<and>
           (\<forall>i < 500.
              length (take num (drop (i * num) ndata)) = num \<and>
              serialize (Audio False) (denormalize rnd (take num (drop (i * num) ndata)) 0x7fffffff)
                = Inr (blocks ! i) \<and>
              length (blocks ! i) = 4 * num) \<and>
           (\<forall>k. signal_gen rnd k = Inr (concat (replicate k blocks)))))"
proof -
  from build_ndata_eq [of rnd] obtain noise g
    where d: "draw_uniform rnd (LCG 1337) (int rate) = Inr (noise, g)"
      and ln: "length noise = rate"
      and b: "build_ndata rnd =
       Inr (replicate rate 0 @ noise @ replicate rate 0 @ replicate rate 1 @
            replicate rate 0 @ replicate rate (- 1) @ replicate rate 0 @
            replicate rate 1 @ replicate rate (- 1) @ replicate rate 0)"
    by blast
  define ndata where "ndata = replicate rate 0 @ noise @ replicate rate 0 @ replicate rate 1 @
            replicate rate 0 @ replicate rate (- 1) @ replicate rate 0 @
            replicate rate 1 @ replicate rate (- 1) @ replicate rate 0"
  have lw: "length ndata = 10 * rate"
    unfolding ndata_def using ln by (rule length_ndata)
  then have lw': "length ndata = 500 * num"
    by (simp add: rate_num(3))
  have replay: "\<exists>blocks. length blocks = 500 \<and>
           (\<forall>i < 500.
              length (take num (drop (i * num) ndata)) = num \<and>
              serialize (Audio False) (denormalize rnd (take num (drop (i * num) ndata)) 0x7fffffff)
                = Inr (blocks ! i) \<and>
              length (blocks ! i) = 4 * num) \<and>
           (\<forall>k. signal_gen rnd k = Inr (concat (replicate k blocks)))"
    if h: "mono rnd \<and> rnd (of_int 0x7fffffff) = of_int 0x7fffffff \<and>
      rnd (- of_int 0x7fffffff) = - of_int 0x7fffffff"
  proof -
    from h have m: "mono rnd" and p: "rnd (of_int 0x7fffffff) = of_int 0x7fffffff"
      and n: "rnd (- of_int 0x7fffffff) = - of_int 0x7fffffff" by simp_all
    from write_chunks_blocks [OF m p n lw'] obtain blocks
      where w: "\<forall>outp. write_chunks rnd (Audio False) ndata outp = Inr (outp @ blocks)"
        and lb: "length blocks = 500"
        and c: "\<forall>i < 500. serialize (Audio False)
                  (denormalize rnd (take num (drop (i * num) ndata)) 0x7fffffff) = Inr (blocks ! i) \<and>
                length (blocks ! i) = 4 * num"
      by blast
    have "length (take num (drop (i * num) ndata)) = num" if "i < 500" for i
    proof -
      have "Suc i \<le> 500" using that by simp
      then have "Suc i * num \<le> 500 * num" by (rule mult_le_mono1)
      then have "i * num + num \<le> 500 * num" by (simp only: mult_Suc add.commute)
      then have "num \<le> 500 * num - i * num" by linarith
      then have "min (length ndata - i * num) num = num" unfolding lw' by (rule min_absorb2)
      then show ?thesis by simp
    qed
    moreover have "signal_gen rnd k = Inr (concat (replicate k blocks))" for k
      using play_blocks [OF w, of k "[]"] b
      by (simp add: signal_gen_def ndata_def)
    ultimately show ?thesis using lb c by blast
  qed
  have b': "build_ndata rnd = Inr ndata"
    using b by (simp only: ndata_def)
  have eq: "ndata = replicate rate 0 @ noise @ replicate rate 0 @ replicate rate 1 @
            replicate rate 0 @ replicate rate (- 1) @ replicate rate 0 @
            replicate rate 1 @ replicate rate (- 1) @ replicate rate 0"
    by (rule ndata_def)
  have "rate = 96000 \<and> num = rate div 50 \<and>
     draw_uniform rnd (LCG 1337) (int rate) = Inr (noise, g) \<and> length noise = rate \<and>
     build_ndata rnd = Inr ndata \<and>
     ndata = replicate rate 0 @ noise @ replicate rate 0 @ replicate rate 1 @
             replicate rate 0 @ replicate rate (- 1) @ replicate rate 0 @
             replicate rate 1 @ replicate rate (- 1) @ replicate rate 0 \<and>
     length ndata = 10 * rate \<and>
     (mono rnd \<and> rnd (of_int 0x7fffffff) = of_int 0x7fffffff \<and>
      rnd (- of_int 0x7fffffff) = - of_int 0x7fffffff \<longrightarrow>
        (\<exists>blocks. length blocks = 500 \<and>
           (\<forall>i < 500.
              length (take num (drop (i * num) ndata)) = num \<and>
              serialize (Audio False) (denormalize rnd (take num (drop (i * num) ndata)) 0x7fffffff)
                = Inr (blocks ! i) \<and>
              length (blocks ! i) = 4 * num) \<and>
           (\<forall>k. signal_gen rnd k = Inr (concat (replicate k blocks)))))"
    using rate_num(1) num_def d ln b' eq lw replay by (intro conjI impI)
  then show ?thesis by blast
qed

theorem signal_gen_waveform_witness:
  "round_b64 (of_int 0x7fffffff) = of_int 0x7fffffff \<and>
   round_b64 (- of_int 0x7fffffff) = - of_int 0x7fffffff \<and>
   (\<exists>ndata blocks. build_ndata round_b64 = Inr ndata \<and> length ndata = 960000 \<and>
      length blocks = 500 \<and> length (blocks ! 0) = 7680 \<and>
      signal_gen round_b64 2 = Inr (blocks @ blocks))"
proof -
  have p: "round_b64 (of_int 0x7fffffff) = of_int 0x7fffffff"
    by (rule round_b64_of_int) simp
  then have n: "round_b64 (- of_int 0x7fffffff) = - of_int 0x7fffffff"
    by (simp add: round_b64_minus)
  from signal_gen_waveform [of round_b64] round_b64_mono p n obtain ndata blocks
    where b: "build_ndata round_b64 = Inr ndata"
      and l: "length ndata = 10 * rate"
      and lb: "length blocks = 500"
      and c: "\<forall>i < 500. length (take num (drop (i * num) ndata)) = num \<and>
              serialize (Audio False) (denormalize round_b64 (take num (drop (i * num) ndata)) 0x7fffffff)
                = Inr (blocks ! i) \<and>
              length (blocks ! i) = 4 * num"
      and s: "\<forall>k. signal_gen round_b64 k = Inr (concat (replicate k blocks))"
    by blast
  from l have "length ndata = 960000" by (simp add: rate_num(1))
  moreover from c have "length (blocks ! 0) = 7680" by (simp add: rate_num(2))
  moreover from s have "signal_gen round_b64 2 = Inr (concat (replicate 2 blocks))" by (rule spec)
  then have "signal_gen round_b64 2 = Inr (blocks @ blocks)" by (simp add: eval_nat_numeral)
  ultimately show ?thesis using p n b lb by blast
qed

end
